theory Spec2Isabelle
  imports Main "HOL-Library.Monad_Syntax" "HOL-Library.Word"
begin

section \<open>The node store\<close>

text \<open>
  The container of \<^verbatim>\<open>avl-map.cpp\<close> is a graph of heap nodes linked by raw pointers
  (\<^verbatim>\<open>parent\<close>, \<^verbatim>\<open>left\<close>, \<^verbatim>\<open>right\<close>).  A pointer is an address or null
  (\<open>addr option\<close>); the store is a list of cells indexed by address, a freed cell is
  \<open>None\<close>.  Every function that dereferences a pointer returns an \<open>option\<close>:
  \<open>None\<close> stands for a call without a defined result, that is a dereference of a null
  or dangling pointer, or a loop that does not return.
\<close>

type_synonym addr = nat

text \<open>
  The field \<^verbatim>\<open>height\<close> is declared \<^verbatim>\<open>size_t\<close> (64 bits, unsigned, wrapping) and
  \<^verbatim>\<open>balance\<close> is an \<^verbatim>\<open>int\<close>.  The code reads \<^verbatim>\<open>height\<close> into \<^verbatim>\<open>int\<close> locals:
  \<open>as_int\<close> is that conversion (the low 32 bits, read in two's complement).  Arithmetic on
  the \<^verbatim>\<open>int\<close> locals and on \<^verbatim>\<open>balance\<close> is unbounded here; in the code an overflow of
  \<^verbatim>\<open>int\<close> is undefined.  Storing an \<^verbatim>\<open>int\<close> into \<^verbatim>\<open>height\<close> is \<open>of_int\<close>.
\<close>

record ('k, 'v) node =
  key :: 'k
  val :: 'v
  height :: "64 word"
  balance :: int
  parent :: "addr option"
  left :: "addr option"
  right :: "addr option"

type_synonym ('k, 'v) heap = "('k, 'v) node option list"

definition as_int :: "64 word \<Rightarrow> int" where
  "as_int w = sint (ucast w :: 32 word)"

definition lookup :: "('k, 'v) heap \<Rightarrow> addr \<Rightarrow> ('k, 'v) node option" where
  "lookup h a = (if a < length h then h ! a else None)"

definition modify ::
  "('k, 'v) heap \<Rightarrow> addr \<Rightarrow> (('k, 'v) node \<Rightarrow> ('k, 'v) node) \<Rightarrow> ('k, 'v) heap option" where
  "modify h a f = (case lookup h a of None \<Rightarrow> None | Some n \<Rightarrow> Some (h[a := Some (f n)]))"

text \<open>\<^verbatim>\<open>new Node(...)\<close> takes the next unused address, \<^verbatim>\<open>delete\<close> empties the cell.\<close>

definition new_node :: "('k, 'v) heap \<Rightarrow> ('k, 'v) node \<Rightarrow> ('k, 'v) heap \<times> addr" where
  "new_node h n = (h @ [Some n], length h)"

definition delete_node :: "('k, 'v) heap \<Rightarrow> addr \<Rightarrow> ('k, 'v) heap option" where
  "delete_node h a = (case lookup h a of None \<Rightarrow> None | Some n \<Rightarrow> Some (h[a := None]))"

text \<open>
  \<^verbatim>\<open>Node::CreateNode(key)\<close> is \<^verbatim>\<open>new Node(key, V(), nullptr, 1, 0, nullptr, nullptr)\<close>.
  The parameter \<open>dv\<close> is the default-constructed value \<^verbatim>\<open>V()\<close>.
\<close>

definition CreateNode :: "'v \<Rightarrow> 'k \<Rightarrow> ('k, 'v) node" where
  "CreateNode dv k =
     \<lparr>key = k, val = dv, height = 1, balance = 0, parent = None, left = None, right = None\<rparr>"

section \<open>Node methods\<close>

partial_function (option) first :: "('k, 'v) heap \<Rightarrow> addr \<Rightarrow> addr option" where
  "first h this =
     (case lookup h this of None \<Rightarrow> None
      | Some n \<Rightarrow> (case left n of None \<Rightarrow> Some this | Some l \<Rightarrow> first h l))"

partial_function (option) last_node :: "('k, 'v) heap \<Rightarrow> addr \<Rightarrow> addr option" where
  "last_node h this =
     (case lookup h this of None \<Rightarrow> None
      | Some n \<Rightarrow> (case right n of None \<Rightarrow> Some this | Some r \<Rightarrow> last_node h r))"

declare first.simps [code]
declare last_node.simps [code]

definition is_right_child :: "('k, 'v) heap \<Rightarrow> addr \<Rightarrow> bool option" where
  "is_right_child h this =
     (case lookup h this of None \<Rightarrow> None
      | Some n \<Rightarrow>
          (case parent n of None \<Rightarrow> Some False
           | Some p \<Rightarrow>
               (case lookup h p of None \<Rightarrow> None | Some pn \<Rightarrow> Some (right pn = Some this))))"

definition is_left_child :: "('k, 'v) heap \<Rightarrow> addr \<Rightarrow> bool option" where
  "is_left_child h this =
     (case lookup h this of None \<Rightarrow> None
      | Some n \<Rightarrow>
          (case parent n of None \<Rightarrow> Some False
           | Some p \<Rightarrow>
               (case lookup h p of None \<Rightarrow> None | Some pn \<Rightarrow> Some (left pn = Some this))))"

text \<open>
  \<^verbatim>\<open>Node::increment\<close>: the right subtree's first node if there is a right child, else the
  upward walk \<open>increment_loop\<close> (the \<^verbatim>\<open>while (successor != nullptr)\<close> loop).  The result
  \<open>Some None\<close> is the null pointer, held by the end cursor.
\<close>

partial_function (option) increment_loop ::
  "('k, 'v) heap \<Rightarrow> addr option \<Rightarrow> addr option option" where
  "increment_loop h successor =
     (case successor of None \<Rightarrow> Some None
      | Some a \<Rightarrow>
          (case is_left_child h a of None \<Rightarrow> None
           | Some b \<Rightarrow>
               (case lookup h a of None \<Rightarrow> None
                | Some n \<Rightarrow> if b then Some (parent n) else increment_loop h (parent n))))"

declare increment_loop.simps [code]

definition increment :: "('k, 'v) heap \<Rightarrow> addr \<Rightarrow> addr option option" where
  "increment h this =
     (case lookup h this of None \<Rightarrow> None
      | Some n \<Rightarrow>
          (case right n of Some r \<Rightarrow> map_option Some (first h r)
           | None \<Rightarrow> increment_loop h (Some this)))"

partial_function (option) decrement_loop ::
  "('k, 'v) heap \<Rightarrow> addr option \<Rightarrow> addr option option" where
  "decrement_loop h predecessor =
     (case predecessor of None \<Rightarrow> Some None
      | Some a \<Rightarrow>
          (case is_right_child h a of None \<Rightarrow> None
           | Some b \<Rightarrow>
               (case lookup h a of None \<Rightarrow> None
                | Some n \<Rightarrow> if b then Some (parent n) else decrement_loop h (parent n))))"

declare decrement_loop.simps [code]

definition decrement :: "('k, 'v) heap \<Rightarrow> addr \<Rightarrow> addr option option" where
  "decrement h this =
     (case lookup h this of None \<Rightarrow> None
      | Some n \<Rightarrow>
          (case left n of Some l \<Rightarrow> map_option Some (last_node h l)
           | None \<Rightarrow> decrement_loop h (Some this)))"

definition has_children :: "('k, 'v) node \<Rightarrow> bool" where
  "has_children n = (left n \<noteq> None \<or> right n \<noteq> None)"

definition get_only_child :: "('k, 'v) node \<Rightarrow> addr option" where
  "get_only_child n =
     (if left n \<noteq> None \<and> right n = None then left n
      else if left n = None \<and> right n \<noteq> None then right n
      else None)"

definition add_child ::
  "('k::linorder, 'v) heap \<Rightarrow> addr \<Rightarrow> addr \<Rightarrow> ('k, 'v) heap option" where
  "add_child h this nd = do {
     h1 \<leftarrow> modify h nd (\<lambda>n. n\<lparr>parent := Some this\<rparr>);
     c \<leftarrow> lookup h1 nd;
     t \<leftarrow> lookup h1 this;
     h2 \<leftarrow> (if key c > key t then modify h1 this (\<lambda>n. n\<lparr>right := Some nd\<rparr>) else Some h1);
     c2 \<leftarrow> lookup h2 nd;
     t2 \<leftarrow> lookup h2 this;
     (if key c2 < key t2 then modify h2 this (\<lambda>n. n\<lparr>left := Some nd\<rparr>) else Some h2)
   }"

definition replace_child ::
  "('k, 'v) heap \<Rightarrow> addr \<Rightarrow> addr option \<Rightarrow> addr option \<Rightarrow> ('k, 'v) heap option" where
  "replace_child h this to_replace replacement =
     (case to_replace of None \<Rightarrow> Some h
      | Some old \<Rightarrow>
          (case replacement of None \<Rightarrow> Some h
           | Some new \<Rightarrow> do {
               t \<leftarrow> lookup h this;
               h1 \<leftarrow> (if left t = Some old then do {
                         ha \<leftarrow> modify h this (\<lambda>n. n\<lparr>left := Some new\<rparr>);
                         hb \<leftarrow> modify ha new (\<lambda>n. n\<lparr>parent := Some this\<rparr>);
                         modify hb old (\<lambda>n. n\<lparr>parent := None\<rparr>)
                       } else Some h);
               t1 \<leftarrow> lookup h1 this;
               (if right t1 = Some old then do {
                  ha \<leftarrow> modify h1 this (\<lambda>n. n\<lparr>right := Some new\<rparr>);
                  hb \<leftarrow> modify ha new (\<lambda>n. n\<lparr>parent := Some this\<rparr>);
                  modify hb old (\<lambda>n. n\<lparr>parent := None\<rparr>)
                } else Some h1)
             }))"

definition rotate_right :: "('k, 'v) heap \<Rightarrow> addr \<Rightarrow> ('k, 'v) heap option" where
  "rotate_right h this = do {
     t \<leftarrow> lookup h this;
     (case left t of None \<Rightarrow> Some h
      | Some to_promote \<Rightarrow> do {
          h1 \<leftarrow> modify h this (\<lambda>n. n\<lparr>left := None\<rparr>);
          h2 \<leftarrow> (case parent t of None \<Rightarrow> Some h1
                 | Some p \<Rightarrow> replace_child h1 p (Some this) (Some to_promote));
          h3 \<leftarrow> modify h2 this (\<lambda>n. n\<lparr>parent := Some to_promote\<rparr>);
          pn \<leftarrow> lookup h3 to_promote;
          h4 \<leftarrow> (case right pn of None \<Rightarrow> Some h3
                 | Some r \<Rightarrow> do {
                     ha \<leftarrow> modify h3 this (\<lambda>n. n\<lparr>left := Some r\<rparr>);
                     hb \<leftarrow> modify ha r (\<lambda>n. n\<lparr>parent := Some this\<rparr>);
                     modify hb to_promote (\<lambda>n. n\<lparr>right := None\<rparr>)
                   });
          modify h4 to_promote (\<lambda>n. n\<lparr>right := Some this\<rparr>)
        })
   }"

definition rotate_left :: "('k, 'v) heap \<Rightarrow> addr \<Rightarrow> ('k, 'v) heap option" where
  "rotate_left h this = do {
     t \<leftarrow> lookup h this;
     (case right t of None \<Rightarrow> Some h
      | Some to_promote \<Rightarrow> do {
          h1 \<leftarrow> modify h this (\<lambda>n. n\<lparr>right := None\<rparr>);
          h2 \<leftarrow> (case parent t of None \<Rightarrow> Some h1
                 | Some p \<Rightarrow> replace_child h1 p (Some this) (Some to_promote));
          h3 \<leftarrow> modify h2 this (\<lambda>n. n\<lparr>parent := Some to_promote\<rparr>);
          pn \<leftarrow> lookup h3 to_promote;
          h4 \<leftarrow> (case left pn of None \<Rightarrow> Some h3
                 | Some l \<Rightarrow> do {
                     ha \<leftarrow> modify h3 this (\<lambda>n. n\<lparr>right := Some l\<rparr>);
                     hb \<leftarrow> modify ha l (\<lambda>n. n\<lparr>parent := Some this\<rparr>);
                     modify hb to_promote (\<lambda>n. n\<lparr>left := None\<rparr>)
                   });
          modify h4 to_promote (\<lambda>n. n\<lparr>left := Some this\<rparr>)
        })
   }"

text \<open>
  \<^verbatim>\<open>Node::propagate_height_down\<close>: every child gets the height of its parent minus one,
  recursively, first on the left, then on the right.
\<close>

partial_function (option) propagate_height_down ::
  "('k, 'v) heap \<Rightarrow> addr \<Rightarrow> ('k, 'v) heap option" where
  "propagate_height_down h this = do {
     n \<leftarrow> lookup h this;
     h2 \<leftarrow> (case left n of None \<Rightarrow> Some h
           | Some l \<Rightarrow> do {
               h1 \<leftarrow> modify h l (\<lambda>c. c\<lparr>height := height n - 1\<rparr>);
               propagate_height_down h1 l
             });
     n2 \<leftarrow> lookup h2 this;
     (case right n2 of None \<Rightarrow> Some h2
      | Some r \<Rightarrow> do {
          h3 \<leftarrow> modify h2 r (\<lambda>c. c\<lparr>height := height n2 - 1\<rparr>);
          propagate_height_down h3 r
        })
   }"

declare propagate_height_down.simps [code]

section \<open>The map\<close>

text \<open>
  A member function of \<^verbatim>\<open>AVLmap\<close> sees the node store and the two fields of its
  object, \<^verbatim>\<open>root\<close> and \<^verbatim>\<open>size_\<close> (here \<open>size_field\<close>, an \<^verbatim>\<open>unsigned int\<close>).
\<close>

record ('k, 'v) avlmap =
  heap :: "('k, 'v) heap"
  root :: "addr option"
  size_field :: "32 word"

datatype Rotation = NONE | RIGHT | LEFT

definition child_height :: "('k, 'v) heap \<Rightarrow> addr option \<Rightarrow> int option" where
  "child_height h c =
     (case c of None \<Rightarrow> Some 0 | Some a \<Rightarrow> map_option (\<lambda>n. as_int (height n)) (lookup h a))"

text \<open>
  \<^verbatim>\<open>Node::try_fix_balance\<close>.  \<open>fix_right_heavy\<close> is the body of its branch
  \<^verbatim>\<open>if (balance > 1)\<close> and \<open>fix_left_heavy\<close> the body of \<^verbatim>\<open>if (balance < -1)\<close>;
  both start from the state in which \<^verbatim>\<open>balance\<close> has been written.  Writing through
  \<^verbatim>\<open>right->parent\<close> (or \<^verbatim>\<open>left->parent\<close>) with a null child is a fault.
\<close>

definition fix_right_heavy ::
  "('k::linorder, 'v) avlmap \<Rightarrow> addr \<Rightarrow> addr option \<Rightarrow> addr \<Rightarrow> (Rotation \<times> ('k, 'v) avlmap) option"
  where
  "fix_right_heavy s this previous inserted = do {
     h2 \<leftarrow> (case previous of None \<Rightarrow> Some (heap s)
            | Some p \<Rightarrow> do {
                ins \<leftarrow> lookup (heap s) inserted;
                pn \<leftarrow> lookup (heap s) p;
                (if key ins < key pn then rotate_right (heap s) p else Some (heap s))
              });
     s3 \<leftarrow> (if root s = Some this then do {
              t2 \<leftarrow> lookup h2 this;
              (case right t2 of None \<Rightarrow> None
               | Some r \<Rightarrow> do {
                   h3 \<leftarrow> modify h2 r (\<lambda>n. n\<lparr>parent := None\<rparr>);
                   Some (s\<lparr>heap := h3, root := Some r\<rparr>)
                 })
            } else Some (s\<lparr>heap := h2\<rparr>));
     h4 \<leftarrow> rotate_left (heap s3) this;
     Some (LEFT, s3\<lparr>heap := h4\<rparr>)
   }"

definition fix_left_heavy ::
  "('k::linorder, 'v) avlmap \<Rightarrow> addr \<Rightarrow> addr option \<Rightarrow> addr \<Rightarrow> (Rotation \<times> ('k, 'v) avlmap) option"
  where
  "fix_left_heavy s this previous inserted = do {
     h2 \<leftarrow> (case previous of None \<Rightarrow> Some (heap s)
            | Some p \<Rightarrow> do {
                ins \<leftarrow> lookup (heap s) inserted;
                pn \<leftarrow> lookup (heap s) p;
                (if key ins > key pn then rotate_left (heap s) p else Some (heap s))
              });
     s3 \<leftarrow> (if root s = Some this then do {
              t2 \<leftarrow> lookup h2 this;
              (case left t2 of None \<Rightarrow> None
               | Some l \<Rightarrow> do {
                   h3 \<leftarrow> modify h2 l (\<lambda>n. n\<lparr>parent := None\<rparr>);
                   Some (s\<lparr>heap := h3, root := Some l\<rparr>)
                 })
            } else Some (s\<lparr>heap := h2\<rparr>));
     h4 \<leftarrow> rotate_right (heap s3) this;
     Some (RIGHT, s3\<lparr>heap := h4\<rparr>)
   }"

definition try_fix_balance ::
  "('k::linorder, 'v) avlmap \<Rightarrow> addr \<Rightarrow> addr option \<Rightarrow> addr \<Rightarrow> (Rotation \<times> ('k, 'v) avlmap) option"
  where
  "try_fix_balance s this previous inserted = do {
     t \<leftarrow> lookup (heap s) this;
     balance_l \<leftarrow> child_height (heap s) (left t);
     balance_r \<leftarrow> child_height (heap s) (right t);
     h1 \<leftarrow> modify (heap s) this (\<lambda>n. n\<lparr>balance := balance_r - balance_l\<rparr>);
     (if balance_r - balance_l = 0 then Some (NONE, s\<lparr>heap := h1\<rparr>)
      else if balance_r - balance_l > 1 then fix_right_heavy (s\<lparr>heap := h1\<rparr>) this previous inserted
      else if balance_r - balance_l < - 1 then fix_left_heavy (s\<lparr>heap := h1\<rparr>) this previous inserted
      else Some (NONE, s\<lparr>heap := h1\<rparr>))
   }"

definition update_height :: "('k, 'v) heap \<Rightarrow> addr \<Rightarrow> ('k, 'v) heap option" where
  "update_height h this = do {
     t \<leftarrow> lookup h this;
     (if has_children t then do {
        height_l \<leftarrow> child_height h (left t);
        height_r \<leftarrow> child_height h (right t);
        modify h this (\<lambda>n. n\<lparr>height :=
          of_int (if height_l + 1 > height_r + 1 then height_l + 1 else height_r + 1)\<rparr>)
      } else Some h)
   }"

text \<open>
  \<^verbatim>\<open>Node::insert_balance\<close>.  \<open>insert_balance_step\<close> is its body up to the recursive
  call: the height update, \<^verbatim>\<open>try_fix_balance\<close>, the downward propagation after a
  rotation; it returns the state and the parent pointer of \<^verbatim>\<open>this\<close>, on which the
  function calls itself unless it is null.
\<close>

definition insert_balance_step ::
  "('k::linorder, 'v) avlmap \<Rightarrow> addr \<Rightarrow> addr option \<Rightarrow> addr
     \<Rightarrow> (('k, 'v) avlmap \<times> addr option) option" where
  "insert_balance_step s this previous inserted = do {
     h1 \<leftarrow> update_height (heap s) this;
     (rotation_occured, s2) \<leftarrow> try_fix_balance (s\<lparr>heap := h1\<rparr>) this previous inserted;
     t2 \<leftarrow> lookup (heap s2) this;
     h3 \<leftarrow> (if rotation_occured \<noteq> NONE
            then (case parent t2 of None \<Rightarrow> Some (heap s2)
                  | Some p \<Rightarrow> propagate_height_down (heap s2) p)
            else Some (heap s2));
     t3 \<leftarrow> lookup h3 this;
     Some (s2\<lparr>heap := h3\<rparr>, parent t3)
   }"

partial_function (option) insert_balance ::
  "('k::linorder, 'v) avlmap \<Rightarrow> addr \<Rightarrow> addr option \<Rightarrow> addr \<Rightarrow> ('k, 'v) avlmap option" where
  "insert_balance s this previous inserted =
     (case insert_balance_step s this previous inserted of None \<Rightarrow> None
      | Some (s3, next_node) \<Rightarrow>
          (case next_node of None \<Rightarrow> Some s3
           | Some p \<Rightarrow> insert_balance s3 p (Some this) inserted))"

declare insert_balance.simps [code]

text \<open>
  The descent of \<^verbatim>\<open>operator[]\<close> (its \<^verbatim>\<open>while (current != nullptr)\<close> loop): the result
  is the node holding the key, or the last node visited, where the new leaf is attached.
  The last branch is the loop iteration in which none of the three comparisons holds.
\<close>

partial_function (option) index_loop ::
  "('k::linorder, 'v) heap \<Rightarrow> 'k \<Rightarrow> addr \<Rightarrow> (bool \<times> addr) option" where
  "index_loop h k current =
     (case lookup h current of None \<Rightarrow> None
      | Some c \<Rightarrow>
          if k = key c then Some (True, current)
          else if k < key c then
            (case left c of None \<Rightarrow> Some (False, current) | Some l \<Rightarrow> index_loop h k l)
          else if k > key c then
            (case right c of None \<Rightarrow> Some (False, current) | Some r \<Rightarrow> index_loop h k r)
          else index_loop h k current)"

declare index_loop.simps [code]

text \<open>
  \<^verbatim>\<open>operator[]\<close>: the result is the new state and the address of the node whose value
  the returned reference denotes.
\<close>

definition indexer ::
  "'v \<Rightarrow> ('k::linorder, 'v) avlmap \<Rightarrow> 'k \<Rightarrow> (('k, 'v) avlmap \<times> addr) option" where
  "indexer dv s k =
     (case root s of
        None \<Rightarrow>
          (let (h1, a) = new_node (heap s) (CreateNode dv k)
           in Some (s\<lparr>heap := h1, root := Some a, size_field := size_field s + 1\<rparr>, a))
      | Some r \<Rightarrow> do {
          (found, current) \<leftarrow> index_loop (heap s) k r;
          (if found then Some (s, current)
           else do {
             let (h1, to_add) = new_node (heap s) (CreateNode dv k);
             h2 \<leftarrow> add_child h1 current to_add;
             s3 \<leftarrow> insert_balance (s\<lparr>heap := h2\<rparr>) to_add None to_add;
             Some (s3\<lparr>size_field := size_field s3 + 1\<rparr>, to_add)
           })
        })"

text \<open>
  \<^verbatim>\<open>search_node\<close>: the same descent, read-only, counting the depth; \<open>Some None\<close> is
  \<^verbatim>\<open>std::nullopt\<close>.  \<^verbatim>\<open>find\<close> turns the result into a cursor; a cursor is the node
  pointer it holds, and the end cursor \<^verbatim>\<open>end_it\<close> holds the null pointer.
\<close>

partial_function (option) search_loop ::
  "('k::linorder, 'v) heap \<Rightarrow> 'k \<Rightarrow> addr \<Rightarrow> nat \<Rightarrow> (addr \<times> nat) option option" where
  "search_loop h k current depth =
     (case lookup h current of None \<Rightarrow> None
      | Some c \<Rightarrow>
          if k = key c then Some (Some (current, depth))
          else if k < key c then
            (case left c of None \<Rightarrow> Some None | Some l \<Rightarrow> search_loop h k l (depth + 1))
          else if k > key c then
            (case right c of None \<Rightarrow> Some None | Some r \<Rightarrow> search_loop h k r (depth + 1))
          else search_loop h k current (depth + 1))"

declare search_loop.simps [code]

definition search_node ::
  "('k::linorder, 'v) avlmap \<Rightarrow> 'k \<Rightarrow> (addr \<times> nat) option option" where
  "search_node s k =
     (case root s of None \<Rightarrow> Some None | Some r \<Rightarrow> search_loop (heap s) k r 0)"

definition end_it :: "addr option" where
  "end_it = None"

definition find_key :: "('k::linorder, 'v) avlmap \<Rightarrow> 'k \<Rightarrow> addr option option" where
  "find_key s k =
     (case search_node s k of None \<Rightarrow> None
      | Some None \<Rightarrow> Some end_it
      | Some (Some (a, depth)) \<Rightarrow> Some (Some a))"

definition begin_it :: "('k, 'v) avlmap \<Rightarrow> addr option option" where
  "begin_it s =
     (case root s of None \<Rightarrow> Some end_it | Some r \<Rightarrow> map_option Some (first (heap s) r))"

definition size_of_map :: "('k, 'v) avlmap \<Rightarrow> 32 word" where
  "size_of_map s = size_field s"

text \<open>
  \<^verbatim>\<open>erase(it)\<close>: nothing for the end cursor; a node without children is detached, a
  node with one child is replaced by that child, a node with two children takes the key
  and value of \<^verbatim>\<open>node->left->last()\<close>, which is erased in its place.
\<close>

definition set_parent_left ::
  "('k, 'v) heap \<Rightarrow> addr option \<Rightarrow> addr option \<Rightarrow> ('k, 'v) heap option" where
  "set_parent_left h p c =
     (case p of None \<Rightarrow> None | Some pa \<Rightarrow> modify h pa (\<lambda>n. n\<lparr>left := c\<rparr>))"

definition set_parent_right ::
  "('k, 'v) heap \<Rightarrow> addr option \<Rightarrow> addr option \<Rightarrow> ('k, 'v) heap option" where
  "set_parent_right h p c =
     (case p of None \<Rightarrow> None | Some pa \<Rightarrow> modify h pa (\<lambda>n. n\<lparr>right := c\<rparr>))"

definition unlink_from_parent ::
  "('k, 'v) heap \<Rightarrow> addr \<Rightarrow> addr option \<Rightarrow> addr option \<Rightarrow> ('k, 'v) heap option" where
  "unlink_from_parent h nd p c = do {
     il \<leftarrow> is_left_child h nd;
     h1 \<leftarrow> (if il then set_parent_left h p c else Some h);
     ir \<leftarrow> is_right_child h1 nd;
     (if ir then set_parent_right h1 p c else Some h1)
   }"

partial_function (option) erase ::
  "('k, 'v) avlmap \<Rightarrow> addr option \<Rightarrow> ('k, 'v) avlmap option" where
  "erase s it =
     (if it = end_it then Some s
      else
        (case it of None \<Rightarrow> None
         | Some nd \<Rightarrow>
             (case lookup (heap s) nd of None \<Rightarrow> None
              | Some n \<Rightarrow>
                  if \<not> has_children n then do {
                    h2 \<leftarrow> unlink_from_parent (heap s) nd (parent n) None;
                    h3 \<leftarrow> delete_node h2 nd;
                    Some (s\<lparr>heap := h3,
                            root := (if root s = Some nd then None else root s),
                            size_field := size_field s - 1\<rparr>)
                  }
                  else
                    (case get_only_child n of
                       Some only_child \<Rightarrow> do {
                         h2 \<leftarrow> unlink_from_parent (heap s) nd (parent n) (Some only_child);
                         h3 \<leftarrow> modify h2 only_child (\<lambda>c. c\<lparr>parent := parent n\<rparr>);
                         h4 \<leftarrow> delete_node h3 nd;
                         Some (s\<lparr>heap := h4,
                                 root := (if root s = Some nd then Some only_child else root s),
                                 size_field := size_field s - 1\<rparr>)
                       }
                     | None \<Rightarrow>
                         (case left n of None \<Rightarrow> None
                          | Some l \<Rightarrow>
                              (case last_node (heap s) l of None \<Rightarrow> None
                               | Some predecessor \<Rightarrow>
                                   (case lookup (heap s) predecessor of None \<Rightarrow> None
                                    | Some pn \<Rightarrow>
                                        erase
                                          (s\<lparr>heap := (heap s)
                                              [nd := Some (n\<lparr>key := key pn, val := val pn\<rparr>)]\<rparr>)
                                          (Some predecessor))))))))"

declare erase.simps [code]

text \<open>
  \<^verbatim>\<open>clear\<close>: breadth-first teardown with a work queue; every deleted node decrements
  \<^verbatim>\<open>size_\<close> (unsigned, so the subtraction wraps).
\<close>

definition push_back_opt :: "addr list \<Rightarrow> addr option \<Rightarrow> addr list" where
  "push_back_opt q c = (case c of None \<Rightarrow> q | Some a \<Rightarrow> q @ [a])"

partial_function (option) clear_loop ::
  "('k, 'v) avlmap \<Rightarrow> addr list \<Rightarrow> ('k, 'v) avlmap option" where
  "clear_loop s deletion_queue =
     (case deletion_queue of [] \<Rightarrow> Some s
      | to_delete # rest \<Rightarrow>
          (case lookup (heap s) to_delete of None \<Rightarrow> None
           | Some n \<Rightarrow>
               (case delete_node (heap s) to_delete of None \<Rightarrow> None
                | Some h1 \<Rightarrow>
                    clear_loop (s\<lparr>heap := h1, size_field := size_field s - 1\<rparr>)
                      (tl (push_back_opt (push_back_opt deletion_queue (left n)) (right n))))))"

declare clear_loop.simps [code]

definition clear :: "('k, 'v) avlmap \<Rightarrow> ('k, 'v) avlmap option" where
  "clear s =
     (case root s of None \<Rightarrow> Some s | Some r \<Rightarrow> clear_loop (s\<lparr>root := None\<rparr>) [r])"

text \<open>
  The loop of the copy constructor and of copy assignment: the front node's pair is
  stored through \<^verbatim>\<open>self[current->Key()] = current->Value()\<close>, then its children are
  queued.  \<open>s\<close> is the destination, whose store also holds the source's nodes.
\<close>

partial_function (option) copy_loop ::
  "'v \<Rightarrow> ('k::linorder, 'v) avlmap \<Rightarrow> addr list \<Rightarrow> ('k, 'v) avlmap option" where
  "copy_loop dv s insert_list =
     (case insert_list of [] \<Rightarrow> Some s
      | current # rest \<Rightarrow>
          (case lookup (heap s) current of None \<Rightarrow> None
           | Some c \<Rightarrow>
               (case indexer dv s (key c) of None \<Rightarrow> None
                | Some (s1, a) \<Rightarrow>
                    (case modify (heap s1) a (\<lambda>n. n\<lparr>val := val c\<rparr>) of None \<Rightarrow> None
                     | Some h2 \<Rightarrow>
                         (case lookup h2 current of None \<Rightarrow> None
                          | Some c2 \<Rightarrow>
                              copy_loop dv (s1\<lparr>heap := h2\<rparr>)
                                (tl (push_back_opt (push_back_opt insert_list (left c2))
                                       (right c2))))))))"

declare copy_loop.simps [code]

text \<open>
  \<^verbatim>\<open>AVLmap(const AVLmap& rhs)\<close>: the member initialiser is \<^verbatim>\<open>size_(rhs.size_)\<close>, the
  root starts as the null pointer.  The argument is the source map (with the store), the
  result is the new map (with the store after the copy).
\<close>

definition copy_ctor :: "'v \<Rightarrow> ('k::linorder, 'v) avlmap \<Rightarrow> ('k, 'v) avlmap option" where
  "copy_ctor dv rhs =
     (case root rhs of
        None \<Rightarrow> Some \<lparr>heap = heap rhs, root = None, size_field = size_field rhs\<rparr>
      | Some r \<Rightarrow> copy_loop dv \<lparr>heap = heap rhs, root = None, size_field = size_field rhs\<rparr> [r])"

section \<open>Several map objects\<close>

text \<open>
  The assignment operators take two map objects by reference, which may be the same
  object.  A world holds the node store and the fields of every map object.
\<close>

type_synonym mref = nat

record map_fields =
  root_of :: "addr option"
  size_of :: "32 word"

record ('k, 'v) world =
  nodes :: "('k, 'v) heap"
  objs :: "mref \<Rightarrow> map_fields"

definition enter :: "('k, 'v) world \<Rightarrow> mref \<Rightarrow> ('k, 'v) avlmap" where
  "enter w this =
     \<lparr>heap = nodes w, root = root_of (objs w this), size_field = size_of (objs w this)\<rparr>"

definition leave :: "('k, 'v) world \<Rightarrow> mref \<Rightarrow> ('k, 'v) avlmap \<Rightarrow> ('k, 'v) world" where
  "leave w this s =
     w\<lparr>nodes := heap s,
       objs := (objs w)(this := \<lparr>root_of = root s, size_of = size_field s\<rparr>)\<rparr>"

definition set_root_of :: "('k, 'v) world \<Rightarrow> mref \<Rightarrow> addr option \<Rightarrow> ('k, 'v) world" where
  "set_root_of w m r = w\<lparr>objs := (objs w)(m := (objs w m)\<lparr>root_of := r\<rparr>)\<rparr>"

definition set_size_of :: "('k, 'v) world \<Rightarrow> mref \<Rightarrow> 32 word \<Rightarrow> ('k, 'v) world" where
  "set_size_of w m n = w\<lparr>objs := (objs w)(m := (objs w m)\<lparr>size_of := n\<rparr>)\<rparr>"

definition copy_construct ::
  "'v \<Rightarrow> ('k::linorder, 'v) world \<Rightarrow> mref \<Rightarrow> mref \<Rightarrow> ('k, 'v) world option" where
  "copy_construct dv w this rhs =
     (case copy_ctor dv (enter w rhs) of None \<Rightarrow> None | Some s \<Rightarrow> Some (leave w this s))"

definition copy_assign ::
  "'v \<Rightarrow> ('k::linorder, 'v) world \<Rightarrow> mref \<Rightarrow> mref \<Rightarrow> ('k, 'v) world option" where
  "copy_assign dv w this rhs =
     (if this = rhs then Some w
      else do {
        s1 \<leftarrow> clear (enter w this);
        let w1 = leave w this s1;
        (case root_of (objs w1 rhs) of None \<Rightarrow> Some w1
         | Some r \<Rightarrow> do {
             s2 \<leftarrow> copy_loop dv (enter w1 this) [r];
             Some (leave w1 this s2)
           })
      })"

text \<open>
  \<^verbatim>\<open>std::exchange(obj, v)\<close> reads \<^verbatim>\<open>obj\<close>, writes \<^verbatim>\<open>v\<close> into it and returns the
  value read; the caller then stores that value in its own field.
\<close>

definition move_ctor :: "('k, 'v) world \<Rightarrow> mref \<Rightarrow> mref \<Rightarrow> ('k, 'v) world" where
  "move_ctor w this rhs =
     (let r = root_of (objs w rhs);
          w1 = set_root_of w rhs None;
          w2 = set_root_of w1 this r;
          n = size_of (objs w2 rhs);
          w3 = set_size_of w2 rhs 0
      in set_size_of w3 this n)"

definition move_assign :: "('k, 'v) world \<Rightarrow> mref \<Rightarrow> mref \<Rightarrow> ('k, 'v) world option" where
  "move_assign w this rhs = do {
     s1 \<leftarrow> clear (enter w this);
     let w0 = leave w this s1;
     let r = root_of (objs w0 rhs);
     let w1 = set_root_of w0 rhs None;
     let w2 = set_root_of w1 this r;
     let n = size_of (objs w2 rhs);
     let w3 = set_size_of w2 rhs 0;
     Some (set_size_of w3 this n)
   }"

section \<open>The integrity check\<close>

text \<open>
  \<^verbatim>\<open>sanityCheck\<close>.  One pass of the loop body over the children of the front node:
  \<open>None\<close> is a fault, \<open>Some None\<close> is \<^verbatim>\<open>return false\<close> ("Ordering issue"),
  \<open>Some (Some q)\<close> is the work queue after the pushes.  The two tests compare
  \<^verbatim>\<open>current->Value()\<close> with the child's \<^verbatim>\<open>Value()\<close>.
\<close>

definition sanity_children ::
  "('k, 'v::ord) heap \<Rightarrow> ('k, 'v) node \<Rightarrow> addr list \<Rightarrow> addr list option option" where
  "sanity_children h c q =
     (case (case left c of None \<Rightarrow> Some (Some q)
            | Some l \<Rightarrow>
                (case lookup h l of None \<Rightarrow> None
                 | Some ln \<Rightarrow> if val c \<le> val ln then Some None else Some (Some (q @ [l]))))
      of None \<Rightarrow> None
      | Some None \<Rightarrow> Some None
      | Some (Some q1) \<Rightarrow>
          (case right c of None \<Rightarrow> Some (Some q1)
           | Some r \<Rightarrow>
               (case lookup h r of None \<Rightarrow> None
                | Some rn \<Rightarrow> if val c \<ge> val rn then Some None else Some (Some (q1 @ [r])))))"

partial_function (option) sanity_loop ::
  "('k, 'v::ord) avlmap \<Rightarrow> addr list \<Rightarrow> 'k list \<Rightarrow> nat \<Rightarrow> bool option" where
  "sanity_loop s insert_list seen_keys measured_size =
     (case insert_list of [] \<Rightarrow> Some (measured_size = unat (size_of_map s))
      | current # rest \<Rightarrow>
          (case lookup (heap s) current of None \<Rightarrow> None
           | Some c \<Rightarrow>
               if key c \<in> set seen_keys then Some False
               else
                 (case sanity_children (heap s) c insert_list of None \<Rightarrow> None
                  | Some None \<Rightarrow> Some False
                  | Some (Some q) \<Rightarrow>
                      if current \<in> set (tl q) then Some False
                      else sanity_loop s (tl q) (seen_keys @ [key c]) (measured_size + 1))))"

declare sanity_loop.simps [code]

definition sanityCheck :: "('k, 'v::ord) avlmap \<Rightarrow> bool option" where
  "sanityCheck s =
     (case root s of None \<Rightarrow> Some True | Some r \<Rightarrow> sanity_loop s [r] [] 0)"

section \<open>Client code and observations\<close>

text \<open>
  \<open>empty_map\<close> is a default-constructed map in an empty store.  \<open>inserts\<close> calls
  \<^verbatim>\<open>m[k]\<close> for each key of a list in turn.  \<open>erase_keys\<close> calls
  \<^verbatim>\<open>m.erase(m.find(k))\<close> for each key in turn.  \<open>traverse\<close> is the loop
  \<^verbatim>\<open>for (it = m.begin(); it != m.end(); ++it)\<close>, collecting the keys it visits.
\<close>

definition empty_map :: "('k, 'v) avlmap" where
  "empty_map = \<lparr>heap = [], root = None, size_field = 0\<rparr>"

fun inserts :: "'v \<Rightarrow> ('k::linorder, 'v) avlmap \<Rightarrow> 'k list \<Rightarrow> ('k, 'v) avlmap option" where
  "inserts dv s [] = Some s"
| "inserts dv s (k # ks) =
     (case indexer dv s k of None \<Rightarrow> None | Some (s1, a) \<Rightarrow> inserts dv s1 ks)"

fun erase_keys :: "('k::linorder, 'v) avlmap \<Rightarrow> 'k list \<Rightarrow> ('k, 'v) avlmap option" where
  "erase_keys s [] = Some s"
| "erase_keys s (k # ks) =
     (case find_key s k of None \<Rightarrow> None
      | Some it \<Rightarrow> (case erase s it of None \<Rightarrow> None | Some s1 \<Rightarrow> erase_keys s1 ks))"

partial_function (option) traverse_from ::
  "('k, 'v) heap \<Rightarrow> addr option \<Rightarrow> 'k list option" where
  "traverse_from h it =
     (if it = end_it then Some []
      else
        (case it of None \<Rightarrow> None
         | Some a \<Rightarrow> do {
             n \<leftarrow> lookup h a;
             nxt \<leftarrow> increment h a;
             ks \<leftarrow> traverse_from h nxt;
             Some (key n # ks)
           }))"

declare traverse_from.simps [code]

definition traverse :: "('k, 'v) avlmap \<Rightarrow> 'k list option" where
  "traverse s = (case begin_it s of None \<Rightarrow> None | Some it \<Rightarrow> traverse_from (heap s) it)"

text \<open>
  What a subtree really is, read off the child pointers: its nodes in in-order, the number
  of nodes on its longest path down to a leaf (1 for a leaf, 0 for the empty subtree), and
  the three properties of the data model.
\<close>

partial_function (option) subtree_nodes ::
  "('k, 'v) heap \<Rightarrow> addr option \<Rightarrow> addr list option" where
  "subtree_nodes h p =
     (case p of None \<Rightarrow> Some []
      | Some a \<Rightarrow> do {
          n \<leftarrow> lookup h a;
          ls \<leftarrow> subtree_nodes h (left n);
          rs \<leftarrow> subtree_nodes h (right n);
          Some (ls @ a # rs)
        })"

declare subtree_nodes.simps [code]

definition key_at :: "('k, 'v) heap \<Rightarrow> addr \<Rightarrow> 'k option" where
  "key_at h a = map_option key (lookup h a)"

definition pair_at :: "('k, 'v) heap \<Rightarrow> addr \<Rightarrow> ('k \<times> 'v) option" where
  "pair_at h a = map_option (\<lambda>n. (key n, val n)) (lookup h a)"

definition subtree_keys :: "('k, 'v) heap \<Rightarrow> addr option \<Rightarrow> 'k list option" where
  "subtree_keys h p =
     (case subtree_nodes h p of None \<Rightarrow> None
      | Some as \<Rightarrow> Some (List.map_filter (key_at h) as))"

definition pairs_of :: "('k, 'v) avlmap \<Rightarrow> ('k \<times> 'v) list option" where
  "pairs_of s =
     (case subtree_nodes (heap s) (root s) of None \<Rightarrow> None
      | Some as \<Rightarrow> Some (List.map_filter (pair_at (heap s)) as))"

definition count_nodes :: "('k, 'v) avlmap \<Rightarrow> nat option" where
  "count_nodes s = map_option length (subtree_nodes (heap s) (root s))"

partial_function (option) path_height :: "('k, 'v) heap \<Rightarrow> addr option \<Rightarrow> int option" where
  "path_height h p =
     (case p of None \<Rightarrow> Some 0
      | Some a \<Rightarrow> do {
          n \<leftarrow> lookup h a;
          hl \<leftarrow> path_height h (left n);
          hr \<leftarrow> path_height h (right n);
          Some (max hl hr + 1)
        })"

declare path_height.simps [code]

definition balance_factor :: "('k, 'v) heap \<Rightarrow> addr \<Rightarrow> int option" where
  "balance_factor h a = do {
     n \<leftarrow> lookup h a;
     hl \<leftarrow> path_height h (left n);
     hr \<leftarrow> path_height h (right n);
     Some (hr - hl)
   }"

definition balanced_node :: "('k, 'v) heap \<Rightarrow> addr \<Rightarrow> bool" where
  "balanced_node h a = (case balance_factor h a of None \<Rightarrow> False | Some b \<Rightarrow> b \<in> {- 1, 0, 1})"

definition avl_balanced :: "('k, 'v) avlmap \<Rightarrow> bool" where
  "avl_balanced s =
     (case subtree_nodes (heap s) (root s) of None \<Rightarrow> False
      | Some as \<Rightarrow> list_all (balanced_node (heap s)) as)"

definition height_ok :: "('k, 'v) heap \<Rightarrow> addr \<Rightarrow> bool" where
  "height_ok h a =
     (case lookup h a of None \<Rightarrow> False
      | Some n \<Rightarrow> 1 \<le> height n \<and> path_height h (Some a) = Some (uint (height n)))"

definition heights_ok :: "('k, 'v) avlmap \<Rightarrow> bool" where
  "heights_ok s =
     (case subtree_nodes (heap s) (root s) of None \<Rightarrow> False
      | Some as \<Rightarrow> list_all (height_ok (heap s)) as)"

definition bst_node :: "('k::linorder, 'v) heap \<Rightarrow> addr \<Rightarrow> bool" where
  "bst_node h a =
     (case lookup h a of None \<Rightarrow> False
      | Some n \<Rightarrow>
          (case subtree_keys h (left n) of None \<Rightarrow> False
           | Some lks \<Rightarrow>
               (case subtree_keys h (right n) of None \<Rightarrow> False
                | Some rks \<Rightarrow> list_all (\<lambda>k. k < key n) lks \<and> list_all (\<lambda>k. key n < k) rks)))"

definition bst_ordered :: "('k::linorder, 'v) avlmap \<Rightarrow> bool" where
  "bst_ordered s =
     (case subtree_nodes (heap s) (root s) of None \<Rightarrow> False
      | Some as \<Rightarrow> list_all (bst_node (heap s)) as)"



definition parent_at :: "('k, 'v) heap \<Rightarrow> addr \<Rightarrow> addr option" where
  "parent_at h a = (case lookup h a of None \<Rightarrow> None | Some n \<Rightarrow> parent n)"


text \<open>The store after \<^verbatim>\<open>m[5]; m[3]; m[8]; m[1]; m[4]; m[7]; m[9]\<close> on an empty map.\<close>

definition heap7 :: "(int, int) heap" where
  "heap7 =
     [Some \<lparr>key = 5, val = 0, height = 3, balance = 0, parent = None,
             left = Some 1, right = Some 2\<rparr>,
      Some \<lparr>key = 3, val = 0, height = 2, balance = 0, parent = Some 0,
             left = Some 3, right = Some 4\<rparr>,
      Some \<lparr>key = 8, val = 0, height = 2, balance = 0, parent = Some 0,
             left = Some 5, right = Some 6\<rparr>,
      Some \<lparr>key = 1, val = 0, height = 1, balance = 0, parent = Some 1,
             left = None, right = None\<rparr>,
      Some \<lparr>key = 4, val = 0, height = 1, balance = 0, parent = Some 1,
             left = None, right = None\<rparr>,
      Some \<lparr>key = 7, val = 0, height = 1, balance = 0, parent = Some 2,
             left = None, right = None\<rparr>,
      Some \<lparr>key = 9, val = 0, height = 1, balance = 0, parent = Some 2,
             left = None, right = None\<rparr>]"

definition map7 :: "(int, int) avlmap" where
  "map7 = \<lparr>heap = heap7, root = Some 0, size_field = 7\<rparr>"

text \<open>A world with no nodes in which every map object is empty.\<close>

definition empty_world :: "('k, 'v) world" where
  "empty_world = \<lparr>nodes = [], objs = (\<lambda>m. \<lparr>root_of = None, size_of = 0\<rparr>)\<rparr>"

text \<open>The world whose map object 0 is the seven-key map and whose other objects are empty.\<close>

definition world7 :: "(int, int) world" where
  "world7 = leave empty_world 0 map7"

section \<open>A tree abstraction of the store\<close>

text \<open>
  The ordering of the keys is proved over the shape of a map's tree.  A \<open>ptree\<close> is a binary
  tree of addresses and \<open>nodes_of\<close> lists them in order.  \<open>tree_at h par p t\<close> says that
  in the store \<open>h\<close> the pointer \<open>p\<close> is the root of a subtree of shape \<open>t\<close> whose nodes
  are allocated, linked to their children as in \<open>t\<close>, and linked back through
  \<^verbatim>\<open>parent\<close>, the root's parent pointer being \<open>par\<close>.  \<open>sub_of\<close> and \<open>subst_at\<close> select and
  replace the subtree at a node; \<open>repl\<close>, \<open>rotl_lookup\<close> and \<open>rotr_lookup\<close> describe the
  store after \<^verbatim>\<open>replace_child\<close> and after the two rotations, node by node.  The
  relations \<open>same_data\<close>, \<open>same_links\<close>, \<open>same_kv\<close> and \<open>same_kl\<close> say which fields two
  stores agree on.  \<open>nkey h a\<close> is the key stored at address \<open>a\<close>; \<open>attach\<close> hangs a new leaf
  where the descent of \<^verbatim>\<open>operator[]\<close> ends.

  \<open>bst_tree h r t\<close>: the map with root pointer \<open>r\<close> has shape \<open>t\<close>, no address occurs twice
  in it, and its keys are strictly increasing from left to right.  \<open>op_frame\<close> bounds the
  effect of an operation on one map: the store does not shrink, the map's new nodes are
  old nodes of that map or freshly allocated, and no other allocated node changes.
  \<open>winvT w T\<close>: in the world \<open>w\<close> every map object \<open>m\<close> has shape \<open>T m\<close> and is ordered, and
  two different objects share no node.

  \<open>cursor s it\<close>: the cursor \<open>it\<close> is the end cursor or points to a node of the map \<open>s\<close>.
  \<open>reachable dv w\<close>: the world \<open>w\<close> is obtained from \<open>empty_world\<close> by calls, on any of its
  map objects, of \<^verbatim>\<open>m[k]\<close>, \<^verbatim>\<open>m[k] = v\<close>, \<^verbatim>\<open>m.erase(it)\<close> with a cursor of \<open>m\<close>,
  \<^verbatim>\<open>m.clear()\<close>, the copy constructor, copy assignment, the move constructor and move
  assignment; a call extends the sequence when it returns.
\<close>

datatype ptree = Tip | Br ptree addr ptree

fun nodes_of :: "ptree \<Rightarrow> addr list" where
  "nodes_of Tip = []"
| "nodes_of (Br l a r) = nodes_of l @ a # nodes_of r"

fun tree_at :: "('k, 'v) heap \<Rightarrow> addr option \<Rightarrow> addr option \<Rightarrow> ptree \<Rightarrow> bool" where
  "tree_at h par p Tip = (p = None)"
| "tree_at h par p (Br l a r) =
     (p = Some a \<and>
      (\<exists>n. lookup h a = Some n \<and> parent n = par
           \<and> tree_at h (Some a) (left n) l \<and> tree_at h (Some a) (right n) r))"

definition repl :: "addr \<Rightarrow> addr option \<Rightarrow> ('k, 'v) node \<Rightarrow> ('k, 'v) node" where
  "repl x q pn = pn\<lparr>left := (if left pn = Some x then q else left pn),
                     right := (if right pn = Some x then q else right pn)\<rparr>"

definition rotl_lookup ::
  "('k, 'v) heap \<Rightarrow> addr \<Rightarrow> ('k, 'v) node \<Rightarrow> addr \<Rightarrow> ('k, 'v) node \<Rightarrow> addr \<Rightarrow> ('k, 'v) node option" where
  "rotl_lookup h x xn b bn a =
     (if a = x then Some (xn\<lparr>right := left bn, parent := Some b\<rparr>)
      else if a = b then
        Some (bn\<lparr>left := Some x,
                 parent := (case parent xn of None \<Rightarrow> parent bn | Some pa \<Rightarrow> Some pa)\<rparr>)
      else if Some a = left bn then map_option (\<lambda>cn. cn\<lparr>parent := Some x\<rparr>) (lookup h a)
      else if Some a = parent xn then map_option (repl x (Some b)) (lookup h a)
      else lookup h a)"

definition rotr_lookup ::
  "('k, 'v) heap \<Rightarrow> addr \<Rightarrow> ('k, 'v) node \<Rightarrow> addr \<Rightarrow> ('k, 'v) node \<Rightarrow> addr \<Rightarrow> ('k, 'v) node option" where
  "rotr_lookup h x xn b bn a =
     (if a = x then Some (xn\<lparr>left := right bn, parent := Some b\<rparr>)
      else if a = b then
        Some (bn\<lparr>right := Some x,
                 parent := (case parent xn of None \<Rightarrow> parent bn | Some pa \<Rightarrow> Some pa)\<rparr>)
      else if Some a = right bn then map_option (\<lambda>cn. cn\<lparr>parent := Some x\<rparr>) (lookup h a)
      else if Some a = parent xn then map_option (repl x (Some b)) (lookup h a)
      else lookup h a)"

fun sub_of :: "ptree \<Rightarrow> addr \<Rightarrow> ptree" where
  "sub_of Tip x = Tip"
| "sub_of (Br l a r) x =
     (if x = a then Br l a r
      else if x \<in> set (nodes_of l) then sub_of l x else sub_of r x)"

fun subst_at :: "ptree \<Rightarrow> addr \<Rightarrow> ptree \<Rightarrow> ptree" where
  "subst_at Tip x u = Tip"
| "subst_at (Br l a r) x u =
     (if x = a then u
      else if x \<in> set (nodes_of l) then Br (subst_at l x u) a r
      else Br l a (subst_at r x u))"

definition same_data :: "('k, 'v) heap \<Rightarrow> ('k, 'v) heap \<Rightarrow> bool" where
  "same_data h h' =
     (length h' = length h \<and>
      (\<forall>a. map_option (\<lambda>n. (key n, val n, height n, balance n)) (lookup h' a)
           = map_option (\<lambda>n. (key n, val n, height n, balance n)) (lookup h a)))"

definition same_links :: "('k, 'v) heap \<Rightarrow> ('k, 'v) heap \<Rightarrow> bool" where
  "same_links h h' =
     (length h' = length h \<and>
      (\<forall>a. map_option (\<lambda>n. (key n, val n, parent n, left n, right n)) (lookup h' a)
           = map_option (\<lambda>n. (key n, val n, parent n, left n, right n)) (lookup h a)))"

definition same_kv :: "('k, 'v) heap \<Rightarrow> ('k, 'v) heap \<Rightarrow> bool" where
  "same_kv h h' =
     (length h' = length h \<and>
      (\<forall>a. map_option (\<lambda>n. (key n, val n)) (lookup h' a)
           = map_option (\<lambda>n. (key n, val n)) (lookup h a)))"

definition tree_step :: "('k, 'v) avlmap \<Rightarrow> addr list \<Rightarrow> ('k, 'v) avlmap \<Rightarrow> bool" where
  "tree_step s L s' =
     ((\<exists>t'. tree_at (heap s') None (root s') t' \<and> nodes_of t' = L)
      \<and> same_kv (heap s) (heap s') \<and> size_field s' = size_field s
      \<and> (\<forall>a. a \<notin> set L \<longrightarrow> lookup (heap s') a = lookup (heap s) a))"

definition nkey :: "('k, 'v) heap \<Rightarrow> addr \<Rightarrow> 'k" where
  "nkey h a = key (the (lookup h a))"

fun attach :: "(addr \<Rightarrow> 'k::linorder) \<Rightarrow> 'k \<Rightarrow> addr \<Rightarrow> ptree \<Rightarrow> ptree" where
  "attach f k new Tip = Br Tip new Tip"
| "attach f k new (Br l a r) =
     (if k < f a then Br (attach f k new l) a r else Br l a (attach f k new r))"

definition attached ::
  "('k::linorder, 'v) heap \<Rightarrow> 'v \<Rightarrow> 'k \<Rightarrow> addr option \<Rightarrow> addr \<Rightarrow> ptree \<Rightarrow> addr \<Rightarrow> ('k, 'v) heap \<Rightarrow> bool"
  where
  "attached h dv k par a t cur h2 =
     (cur \<in> set (nodes_of t)
      \<and> add_child (h @ [Some (CreateNode dv k)]) cur (length h) = Some h2
      \<and> length h2 = Suc (length h)
      \<and> tree_at h2 par (Some a) (attach (nkey h) k (length h) t)
      \<and> (\<forall>b. b \<notin> set (nodes_of t) \<longrightarrow> b \<noteq> length h \<longrightarrow> lookup h2 b = lookup h b)
      \<and> (\<forall>b \<in> set (nodes_of t). map_option (\<lambda>n. (key n, val n, parent n)) (lookup h2 b)
              = map_option (\<lambda>n. (key n, val n, parent n)) (lookup h b))
      \<and> map_option (\<lambda>n. (key n, val n)) (lookup h2 (length h)) = Some (k, dv))"

definition bst_tree :: "('k::linorder, 'v) heap \<Rightarrow> addr option \<Rightarrow> ptree \<Rightarrow> bool" where
  "bst_tree h r t =
     (tree_at h None r t \<and> distinct (nodes_of t) \<and> sorted_wrt (<) (map (nkey h) (nodes_of t)))"

definition op_frame ::
  "('k, 'v) heap \<Rightarrow> ptree \<Rightarrow> ('k, 'v) heap \<Rightarrow> ptree \<Rightarrow> bool" where
  "op_frame h t h' t' =
     (length h \<le> length h'
      \<and> (\<forall>b \<in> set (nodes_of t'). b \<in> set (nodes_of t) \<or> length h \<le> b)
      \<and> (\<forall>b. b \<notin> set (nodes_of t) \<longrightarrow> b < length h \<longrightarrow> lookup h' b = lookup h b))"

definition same_kl :: "('k, 'v) heap \<Rightarrow> ('k, 'v) heap \<Rightarrow> bool" where
  "same_kl h h' =
     (length h' = length h \<and>
      (\<forall>a. map_option (\<lambda>n. (key n, parent n, left n, right n)) (lookup h' a)
           = map_option (\<lambda>n. (key n, parent n, left n, right n)) (lookup h a)))"

definition closed :: "('k, 'v) heap \<Rightarrow> addr set \<Rightarrow> bool" where
  "closed h N =
     (\<forall>a \<in> N. \<forall>n. lookup h a = Some n \<longrightarrow>
        (\<forall>c. left n = Some c \<or> right n = Some c \<longrightarrow> c \<in> N))"

definition winvT :: "('k::linorder, 'v) world \<Rightarrow> (mref \<Rightarrow> ptree) \<Rightarrow> bool" where
  "winvT w T =
     ((\<forall>m. bst_tree (nodes w) (root_of (objs w m)) (T m))
      \<and> (\<forall>m m'. m \<noteq> m' \<longrightarrow> set (nodes_of (T m)) \<inter> set (nodes_of (T m')) = {}))"

definition winv :: "('k::linorder, 'v) world \<Rightarrow> bool" where
  "winv w = (\<exists>T. winvT w T)"

definition cursor :: "('k, 'v) avlmap \<Rightarrow> addr option \<Rightarrow> bool" where
  "cursor s it =
     (it = end_it \<or>
      (case subtree_nodes (heap s) (root s) of None \<Rightarrow> False | Some as \<Rightarrow> it \<in> Some ` set as))"

inductive reachable :: "'v \<Rightarrow> ('k::linorder, 'v) world \<Rightarrow> bool" for dv :: 'v where
  r_init: "reachable dv empty_world"
| r_index: "reachable dv w \<Longrightarrow> indexer dv (enter w m) k = Some (s', a)
            \<Longrightarrow> reachable dv (leave w m s')"
| r_assign: "reachable dv w \<Longrightarrow> indexer dv (enter w m) k = Some (s', a)
            \<Longrightarrow> modify (heap s') a (\<lambda>n. n\<lparr>val := v\<rparr>) = Some h2
            \<Longrightarrow> reachable dv (leave w m (s'\<lparr>heap := h2\<rparr>))"
| r_erase: "reachable dv w \<Longrightarrow> cursor (enter w m) it \<Longrightarrow> erase (enter w m) it = Some s'
            \<Longrightarrow> reachable dv (leave w m s')"
| r_clear: "reachable dv w \<Longrightarrow> clear (enter w m) = Some s' \<Longrightarrow> reachable dv (leave w m s')"
| r_copy_construct: "reachable dv w \<Longrightarrow> copy_construct dv w this rhs = Some w'
            \<Longrightarrow> reachable dv w'"
| r_copy_assign: "reachable dv w \<Longrightarrow> copy_assign dv w this rhs = Some w'
            \<Longrightarrow> reachable dv w'"
| r_move_construct: "reachable dv w \<Longrightarrow> reachable dv (move_ctor w this rhs)"
| r_move_assign: "reachable dv w \<Longrightarrow> move_assign w this rhs = Some w'
            \<Longrightarrow> reachable dv w'"

section \<open>Helper lemmas\<close>

lemma inserts_seven: "inserts (0::int) empty_map [5, 3, 8, 1, 4, 7, 9 :: int] = Some map7"
  by code_simp




section \<open>The claims\<close>

text \<open>
  C1.  The claim: a copy-constructed map \<open>B\<close> holds exactly the pairs of \<open>A\<close> and its
  maintained count equals the number of nodes reachable from its root.  The code
  initialises \<^verbatim>\<open>size_\<close> with \<^verbatim>\<open>rhs.size_\<close> and then counts every re-inserted pair
  again: for the one-element map \<open>A\<close> built by \<^verbatim>\<open>A[1]\<close>, the copy holds the pair of
  \<open>A\<close> in one reachable node, and its \<^verbatim>\<open>size()\<close> is 2.
\<close>

theorem copy_ctor_counts_twice:
  "map_option (\<lambda>B. (pairs_of B, count_nodes B, size_of_map B))
     (Option.bind (inserts (0::int) empty_map [1::int]) (copy_ctor 0))
   = Some (Some [(1, 0)], Some 1, 2)
   \<and> map_option (\<lambda>A. (pairs_of A, count_nodes A, size_of_map A))
        (inserts (0::int) empty_map [1::int])
     = Some (Some [(1, 0)], Some 1, 1)"
  by code_simp

text \<open>
  C2.  The claim: \<^verbatim>\<open>sanityCheck\<close> returns true exactly for trees without duplicate
  keys, with each node's key ordered against its direct children, and with a visited
  count equal to the size; in particular it returns false when a key ordering is violated.
  The code compares the stored values, not the keys.  After \<^verbatim>\<open>m[5]; m[3]\<close> (both values
  default-constructed) the tree is a search tree with two distinct keys and size 2, and
  \<^verbatim>\<open>sanityCheck\<close> returns false; a tree whose left child has the larger key and the
  smaller value passes the check.
\<close>

theorem sanityCheck_compares_values:
  "map_option (\<lambda>s. (sanityCheck s, bst_ordered s, subtree_keys (heap s) (root s),
                     count_nodes s, size_of_map s))
     (inserts (0::int) empty_map [5, 3 :: int])
   = Some (Some False, True, Some [3, 5], Some 2, 2)
   \<and> (let s = \<lparr>heap = [Some \<lparr>key = 5 :: int, val = 10 :: int, height = 2, balance = - 1,
                              parent = None, left = Some 1, right = None\<rparr>,
                        Some \<lparr>key = 7, val = 3, height = 1, balance = 0,
                              parent = Some 0, left = None, right = None\<rparr>],
                root = Some 0, size_field = 2\<rparr>
      in (sanityCheck s, bst_ordered s)) = (Some True, False)"
  by code_simp

text \<open>
  C3.  The claim: after each insertion of a sequence of distinct keys into an empty map,
  every node's balance factor (height of the right subtree minus height of the left
  subtree) is \<open>-1\<close>, \<open>0\<close> or \<open>1\<close>.  The code fails it: after inserting
  \<open>1, 2, 3, 5, 4, 6\<close> the root (key 2, at address 1) has a left subtree of height 1 and
  a right subtree of height 3.
\<close>

theorem insert_breaks_balance:
  "map_option (\<lambda>s. (avl_balanced s, root s, key_at (heap s) 1, balance_factor (heap s) 1,
                     subtree_keys (heap s) (root s)))
     (inserts (0::int) empty_map [1, 2, 3, 5, 4, 6 :: int])
   = Some (False, Some 1, Some 2, Some 2, Some [1, 2, 3, 4, 5, 6])"
  by code_simp

text \<open>
  C5.  The claim: in every reachable state every node's height field is at least 1 and
  equals the length of the longest path from the node down to a leaf.  The code fails it:
  after inserting \<open>3, 1, 2\<close> the tree is \<open>2(1, 3)\<close>; the root's height field is 1
  (its longest path has 2 nodes) and both leaves have the height field 0.
\<close>

theorem insert_breaks_heights:
  "map_option (\<lambda>s. (heights_ok s, root s,
                     map (\<lambda>a. (key_at (heap s) a, map_option height (lookup (heap s) a),
                                path_height (heap s) (Some a))) [0, 1, 2]))
     (inserts (0::int) empty_map [3, 1, 2 :: int])
   = Some (False, Some 2,
           [(Some 3, Some 0, Some 1), (Some 1, Some 0, Some 1), (Some 2, Some 1, Some 2)])"
  by code_simp



text \<open>
  C7.  Erasing with the end cursor returns normally and leaves the whole state (the
  store, the root and the size) as it was.
\<close>

theorem erase_end_noop: "erase s end_it = Some s"
  by (subst erase.simps) simp

text \<open>
  C10.  The claim: move-assigning a map to itself leaves it with a null root and size
  zero, whatever it held.  The root is null afterwards, but the size is what
  \<^verbatim>\<open>clear\<close> leaves, the old size minus the number of deleted nodes.  For the object 1
  copy-constructed from the one-element map 0 (size 2, one node), the self-assignment
  leaves size 1; for a map built by insertions only it leaves size 0.
\<close>

theorem self_move_assign_after_copy:
  "map_option (\<lambda>w. (root_of (objs w 1), size_of (objs w 1)))
     (Option.bind (inserts (0::int) (enter empty_world 0) [1::int])
        (\<lambda>s. Option.bind (copy_construct 0 (leave empty_world 0 s) 1 0)
           (\<lambda>w. move_assign w 1 1)))
   = Some (None, 1)
   \<and> map_option (\<lambda>w. (root_of (objs w 0), size_of (objs w 0)))
       (Option.bind (inserts (0::int) (enter empty_world 0) [1, 2, 3 :: int])
          (\<lambda>s. move_assign (leave empty_world 0 s) 0 0))
     = Some (None, 0)"
  by code_simp

section \<open>The ordering of the keys in reachable states\<close>

lemma lookup_length: "lookup h a = Some n \<Longrightarrow> a < length h"
  by (simp add: lookup_def split: if_splits)

lemma lookup_upd [simp]:
  "lookup (h[a := x]) b = (if b = a \<and> a < length h then x else lookup h b)"
  by (auto simp: lookup_def)

lemma modify_Some: "lookup h a = Some n \<Longrightarrow> modify h a f = Some (h[a := Some (f n)])"
  by (simp add: modify_def)

lemma tree_at_frame:
  "(\<And>a. a \<in> set (nodes_of t) \<Longrightarrow> lookup h' a = lookup h a)
   \<Longrightarrow> tree_at h' par p t = tree_at h par p t"
  by (induction t arbitrary: par p) auto

lemma tree_at_nodes_length: "tree_at h par p t \<Longrightarrow> a \<in> set (nodes_of t) \<Longrightarrow> a < length h"
  by (induction t arbitrary: par p) (auto dest: lookup_length)

lemma replace_child_lookup:
  assumes "lookup h pa = Some pn" "left pn = Some x \<or> right pn = Some x"
    "lookup h x = Some xn" "lookup h b = Some bn" "x \<noteq> b" "x \<noteq> pa" "b \<noteq> pa"
  shows "\<exists>h'. replace_child h pa (Some x) (Some b) = Some h' \<and> length h' = length h
           \<and> (\<forall>a. lookup h' a =
                 (if a = pa then Some (repl x (Some b) pn)
                  else if a = b then Some (bn\<lparr>parent := Some pa\<rparr>)
                  else if a = x then Some (xn\<lparr>parent := None\<rparr>)
                  else lookup h a))"
proof -
  have len: "x < length h" "b < length h" "pa < length h"
    using assms by (auto dest: lookup_length)
  show ?thesis
    using assms len by (auto simp: replace_child_def modify_def repl_def)
qed

lemma rotate_left_lookup:
  assumes x: "lookup h x = Some xn" "right xn = Some b"
    and b: "lookup h b = Some bn" "x \<noteq> b"
    and par: "\<And>pa. parent xn = Some pa \<Longrightarrow>
               pa \<noteq> x \<and> pa \<noteq> b \<and> left bn \<noteq> Some pa
               \<and> (\<exists>pn. lookup h pa = Some pn \<and> (left pn = Some x \<or> right pn = Some x))"
    and c: "\<And>c. left bn = Some c \<Longrightarrow> c \<noteq> x \<and> c \<noteq> b \<and> (\<exists>cn. lookup h c = Some cn)"
  shows "\<exists>h'. rotate_left h x = Some h' \<and> length h' = length h
           \<and> (\<forall>a. lookup h' a = rotl_lookup h x xn b bn a)"
proof -
  have len: "x < length h" "b < length h"
    using x b by (auto dest: lookup_length)
  define h1 where "h1 = h[x := Some (xn\<lparr>right := None\<rparr>)]"
  have h1: "modify h x (\<lambda>n. n\<lparr>right := None\<rparr>) = Some h1"
    using x by (simp add: modify_def h1_def)
  have l1: "\<And>a. lookup h1 a = (if a = x then Some (xn\<lparr>right := None\<rparr>) else lookup h a)"
    using len by (simp add: h1_def)
  have len1: "length h1 = length h" by (simp add: h1_def)
  obtain h2 where h2: "(case parent xn of None \<Rightarrow> Some h1
          | Some p \<Rightarrow> replace_child h1 p (Some x) (Some b)) = Some h2"
     "length h2 = length h"
     "\<And>a. lookup h2 a =
        (if a = x then Some (xn\<lparr>right := None, parent := None\<rparr>)
         else if a = b then
           Some (bn\<lparr>parent := (case parent xn of None \<Rightarrow> parent bn | Some pa \<Rightarrow> Some pa)\<rparr>)
         else if Some a = parent xn then map_option (repl x (Some b)) (lookup h a)
         else lookup h a)"
  proof (cases "parent xn")
    case None
    then have "xn\<lparr>right := None, parent := None\<rparr> = xn\<lparr>right := None\<rparr>" by simp
    with None l1 len1 b show ?thesis
      by (intro that[of h1]) auto
  next
    case (Some pa)
    from par[OF Some] obtain pn where pn: "pa \<noteq> x" "pa \<noteq> b" "lookup h pa = Some pn"
      "left pn = Some x \<or> right pn = Some x" by auto
    have "\<exists>h'. replace_child h1 pa (Some x) (Some b) = Some h' \<and> length h' = length h1
           \<and> (\<forall>a. lookup h' a =
                 (if a = pa then Some (repl x (Some b) pn)
                  else if a = b then Some (bn\<lparr>parent := Some pa\<rparr>)
                  else if a = x then Some ((xn\<lparr>right := None\<rparr>)\<lparr>parent := None\<rparr>)
                  else lookup h1 a))"
      using pn b by (intro replace_child_lookup) (auto simp: l1)
    then obtain h' where h': "replace_child h1 pa (Some x) (Some b) = Some h'"
      "length h' = length h1"
      "\<And>a. lookup h' a =
                 (if a = pa then Some (repl x (Some b) pn)
                  else if a = b then Some (bn\<lparr>parent := Some pa\<rparr>)
                  else if a = x then Some ((xn\<lparr>right := None\<rparr>)\<lparr>parent := None\<rparr>)
                  else lookup h1 a)"
      by blast
    show ?thesis
      using Some h' pn len1 b by (intro that[of h']) (auto simp: l1)
  qed
  define h3 where "h3 = h2[x := Some (xn\<lparr>right := None, parent := Some b\<rparr>)]"
  have len2: "x < length h2" "b < length h2" using len h2(2) by auto
  have h3: "modify h2 x (\<lambda>n. n\<lparr>parent := Some b\<rparr>) = Some h3"
    by (simp add: modify_def h2(3) h3_def)
  have l3: "\<And>a. lookup h3 a =
        (if a = x then Some (xn\<lparr>right := None, parent := Some b\<rparr>) else lookup h2 a)"
    using len2 by (simp add: h3_def)
  have lb3: "lookup h3 b =
      Some (bn\<lparr>parent := (case parent xn of None \<Rightarrow> parent bn | Some pa \<Rightarrow> Some pa)\<rparr>)"
    using b by (simp add: l3 h2(3))
  have len3: "length h3 = length h" by (simp add: h3_def h2(2))
  show ?thesis
  proof (cases "left bn")
    case None
    show ?thesis
      using x b h1 h2(1) h3 lb3 None len3 len
      apply (simp add: rotate_left_def modify_def rotl_lookup_def)
      apply (auto simp: l3 h2(3))
      done
  next
    case (Some c)
    from c[OF Some] obtain cn where cn: "c \<noteq> x" "c \<noteq> b" "lookup h c = Some cn" by auto
    have cp: "Some c \<noteq> parent xn"
    proof
      assume "Some c = parent xn"
      then have "parent xn = Some c" by simp
      from par[OF this] Some show False by simp
    qed
    have lc3: "lookup h3 c = Some cn" using cn cp by (auto simp: l3 h2(3))
    have lx3: "lookup h3 x = Some (xn\<lparr>right := None, parent := Some b\<rparr>)" by (simp add: l3)
    have lenc: "c < length h" using cn by (auto dest: lookup_length)
    show ?thesis
      using x b h1 h2(1) h3 lb3 lc3 lx3 Some len3 len lenc cn cp
      apply (simp add: rotate_left_def modify_def rotl_lookup_def)
      apply (auto simp: l3 h2(3))
      done
  qed
qed

lemma rotate_right_lookup:
  assumes x: "lookup h x = Some xn" "left xn = Some b"
    and b: "lookup h b = Some bn" "x \<noteq> b"
    and par: "\<And>pa. parent xn = Some pa \<Longrightarrow>
               pa \<noteq> x \<and> pa \<noteq> b \<and> right bn \<noteq> Some pa
               \<and> (\<exists>pn. lookup h pa = Some pn \<and> (left pn = Some x \<or> right pn = Some x))"
    and c: "\<And>c. right bn = Some c \<Longrightarrow> c \<noteq> x \<and> c \<noteq> b \<and> (\<exists>cn. lookup h c = Some cn)"
  shows "\<exists>h'. rotate_right h x = Some h' \<and> length h' = length h
           \<and> (\<forall>a. lookup h' a = rotr_lookup h x xn b bn a)"
proof -
  have len: "x < length h" "b < length h"
    using x b by (auto dest: lookup_length)
  define h1 where "h1 = h[x := Some (xn\<lparr>left := None\<rparr>)]"
  have h1: "modify h x (\<lambda>n. n\<lparr>left := None\<rparr>) = Some h1"
    using x by (simp add: modify_def h1_def)
  have l1: "\<And>a. lookup h1 a = (if a = x then Some (xn\<lparr>left := None\<rparr>) else lookup h a)"
    using len by (simp add: h1_def)
  have len1: "length h1 = length h" by (simp add: h1_def)
  obtain h2 where h2: "(case parent xn of None \<Rightarrow> Some h1
          | Some p \<Rightarrow> replace_child h1 p (Some x) (Some b)) = Some h2"
     "length h2 = length h"
     "\<And>a. lookup h2 a =
        (if a = x then Some (xn\<lparr>left := None, parent := None\<rparr>)
         else if a = b then
           Some (bn\<lparr>parent := (case parent xn of None \<Rightarrow> parent bn | Some pa \<Rightarrow> Some pa)\<rparr>)
         else if Some a = parent xn then map_option (repl x (Some b)) (lookup h a)
         else lookup h a)"
  proof (cases "parent xn")
    case None
    then have "xn\<lparr>left := None, parent := None\<rparr> = xn\<lparr>left := None\<rparr>" by simp
    with None l1 len1 b show ?thesis
      by (intro that[of h1]) auto
  next
    case (Some pa)
    from par[OF Some] obtain pn where pn: "pa \<noteq> x" "pa \<noteq> b" "lookup h pa = Some pn"
      "left pn = Some x \<or> right pn = Some x" by auto
    have "\<exists>h'. replace_child h1 pa (Some x) (Some b) = Some h' \<and> length h' = length h1
           \<and> (\<forall>a. lookup h' a =
                 (if a = pa then Some (repl x (Some b) pn)
                  else if a = b then Some (bn\<lparr>parent := Some pa\<rparr>)
                  else if a = x then Some ((xn\<lparr>left := None\<rparr>)\<lparr>parent := None\<rparr>)
                  else lookup h1 a))"
      using pn b by (intro replace_child_lookup) (auto simp: l1)
    then obtain h' where h': "replace_child h1 pa (Some x) (Some b) = Some h'"
      "length h' = length h1"
      "\<And>a. lookup h' a =
                 (if a = pa then Some (repl x (Some b) pn)
                  else if a = b then Some (bn\<lparr>parent := Some pa\<rparr>)
                  else if a = x then Some ((xn\<lparr>left := None\<rparr>)\<lparr>parent := None\<rparr>)
                  else lookup h1 a)"
      by blast
    show ?thesis
      using Some h' pn len1 b by (intro that[of h']) (auto simp: l1)
  qed
  define h3 where "h3 = h2[x := Some (xn\<lparr>left := None, parent := Some b\<rparr>)]"
  have len2: "x < length h2" "b < length h2" using len h2(2) by auto
  have h3: "modify h2 x (\<lambda>n. n\<lparr>parent := Some b\<rparr>) = Some h3"
    by (simp add: modify_def h2(3) h3_def)
  have l3: "\<And>a. lookup h3 a =
        (if a = x then Some (xn\<lparr>left := None, parent := Some b\<rparr>) else lookup h2 a)"
    using len2 by (simp add: h3_def)
  have lb3: "lookup h3 b =
      Some (bn\<lparr>parent := (case parent xn of None \<Rightarrow> parent bn | Some pa \<Rightarrow> Some pa)\<rparr>)"
    using b by (simp add: l3 h2(3))
  have len3: "length h3 = length h" by (simp add: h3_def h2(2))
  show ?thesis
  proof (cases "right bn")
    case None
    show ?thesis
      using x b h1 h2(1) h3 lb3 None len3 len
      apply (simp add: rotate_right_def modify_def rotr_lookup_def)
      apply (auto simp: l3 h2(3))
      done
  next
    case (Some c)
    from c[OF Some] obtain cn where cn: "c \<noteq> x" "c \<noteq> b" "lookup h c = Some cn" by auto
    have cp: "Some c \<noteq> parent xn"
    proof
      assume "Some c = parent xn"
      then have "parent xn = Some c" by simp
      from par[OF this] Some show False by simp
    qed
    have lc3: "lookup h3 c = Some cn" using cn cp by (auto simp: l3 h2(3))
    have lx3: "lookup h3 x = Some (xn\<lparr>left := None, parent := Some b\<rparr>)" by (simp add: l3)
    have lenc: "c < length h" using cn by (auto dest: lookup_length)
    show ?thesis
      using x b h1 h2(1) h3 lb3 lc3 lx3 Some len3 len lenc cn cp
      apply (simp add: rotate_right_def modify_def rotr_lookup_def)
      apply (auto simp: l3 h2(3))
      done
  qed
qed

subsection \<open>Subtrees\<close>

lemma sub_of_nodes: "set (nodes_of (sub_of t x)) \<subseteq> set (nodes_of t)"
  by (induction t) auto

lemma sub_of_distinct: "distinct (nodes_of t) \<Longrightarrow> distinct (nodes_of (sub_of t x))"
  by (induction t) auto

lemma sub_of_root:
  "x \<in> set (nodes_of t) \<Longrightarrow> \<exists>l r. sub_of t x = Br l x r"
  by (induction t) auto

lemma subst_at_nodes:
  "distinct (nodes_of t) \<Longrightarrow> x \<in> set (nodes_of t) \<Longrightarrow>
   \<exists>pre post. nodes_of t = pre @ nodes_of (sub_of t x) @ post
              \<and> nodes_of (subst_at t x u) = pre @ nodes_of u @ post"
proof (induction t)
  case Tip
  then show ?case by simp
next
  case (Br l a r)
  show ?case
  proof (cases "x = a")
    case True
    then show ?thesis by (intro exI[of _ "[]"]) simp
  next
    case False
    show ?thesis
    proof (cases "x \<in> set (nodes_of l)")
      case True
      with Br obtain pre post where
        "nodes_of l = pre @ nodes_of (sub_of l x) @ post"
        "nodes_of (subst_at l x u) = pre @ nodes_of u @ post"
        by auto
      with True False show ?thesis
        by (intro exI[of _ pre] exI[of _ "post @ a # nodes_of r"]) simp
    next
      case nl: False
      with False Br.prems have xr: "x \<in> set (nodes_of r)" by auto
      with Br obtain pre post where
        "nodes_of r = pre @ nodes_of (sub_of r x) @ post"
        "nodes_of (subst_at r x u) = pre @ nodes_of u @ post"
        by auto
      with nl False show ?thesis
        by (intro exI[of _ "nodes_of l @ a # pre"] exI[of _ post]) simp
    qed
  qed
qed

lemma tree_at_sub:
  "tree_at h par p t \<Longrightarrow> x \<in> set (nodes_of t) \<Longrightarrow>
   tree_at h (parent_at h x) (Some x) (sub_of t x)"
  by (induction t arbitrary: par p) (auto simp: parent_at_def)

text \<open>The parent of a node of a tree: the tree's own parent pointer, or a node of the tree
  outside the node's subtree that has the node as exactly one of its children.\<close>

lemma tree_at_parent:
  "tree_at h par p t \<Longrightarrow> distinct (nodes_of t) \<Longrightarrow> x \<in> set (nodes_of t) \<Longrightarrow>
   (p = Some x \<and> parent_at h x = par) \<or>
   (p \<noteq> Some x \<and>
    (\<exists>pa pn. parent_at h x = Some pa \<and> pa \<in> set (nodes_of t)
       \<and> pa \<notin> set (nodes_of (sub_of t x)) \<and> lookup h pa = Some pn
       \<and> ((left pn = Some x \<and> right pn \<noteq> Some x) \<or> (right pn = Some x \<and> left pn \<noteq> Some x))))"
proof (induction t arbitrary: par p)
  case Tip
  then show ?case by simp
next
  case (Br l a r)
  from Br.prems(1) obtain n where n: "p = Some a" "lookup h a = Some n" "parent n = par"
    "tree_at h (Some a) (left n) l" "tree_at h (Some a) (right n) r"
    by auto
  show ?case
  proof (cases "x = a")
    case True
    with n show ?thesis by (simp add: parent_at_def)
  next
    case False
    have d: "distinct (nodes_of l)" "distinct (nodes_of r)" "a \<notin> set (nodes_of l)"
      "a \<notin> set (nodes_of r)" "set (nodes_of l) \<inter> set (nodes_of r) = {}"
      using Br.prems(2) by auto
    show ?thesis
    proof (cases "x \<in> set (nodes_of l)")
      case True
      from Br.IH(1)[OF n(4) d(1) True]
      show ?thesis
      proof
        assume "left n = Some x \<and> parent_at h x = Some a"
        moreover have "right n \<noteq> Some x"
        proof
          assume "right n = Some x"
          with n(5) have "x \<in> set (nodes_of r)" by (cases r) auto
          with True d(5) show False by auto
        qed
        moreover have "a \<notin> set (nodes_of (sub_of l x))" using d(3) sub_of_nodes by fastforce
        ultimately show ?thesis using n False True by auto
      next
        assume "left n \<noteq> Some x \<and>
          (\<exists>pa pn. parent_at h x = Some pa \<and> pa \<in> set (nodes_of l)
             \<and> pa \<notin> set (nodes_of (sub_of l x)) \<and> lookup h pa = Some pn
             \<and> ((left pn = Some x \<and> right pn \<noteq> Some x) \<or> (right pn = Some x \<and> left pn \<noteq> Some x)))"
        then show ?thesis using n False True by auto
      qed
    next
      case nl: False
      with False Br.prems(3) have xr: "x \<in> set (nodes_of r)" by auto
      from Br.IH(2)[OF n(5) d(2) xr]
      show ?thesis
      proof
        assume "right n = Some x \<and> parent_at h x = Some a"
        moreover have "left n \<noteq> Some x"
        proof
          assume "left n = Some x"
          with n(4) have "x \<in> set (nodes_of l)" by (cases l) auto
          with nl show False by auto
        qed
        moreover have "a \<notin> set (nodes_of (sub_of r x))" using d(4) sub_of_nodes by fastforce
        ultimately show ?thesis using n False nl by auto
      next
        assume "right n \<noteq> Some x \<and>
          (\<exists>pa pn. parent_at h x = Some pa \<and> pa \<in> set (nodes_of r)
             \<and> pa \<notin> set (nodes_of (sub_of r x)) \<and> lookup h pa = Some pn
             \<and> ((left pn = Some x \<and> right pn \<noteq> Some x) \<or> (right pn = Some x \<and> left pn \<noteq> Some x)))"
        then show ?thesis using n False nl by auto
      qed
    qed
  qed
qed

lemma tree_at_root_in: "tree_at h par (Some x) t \<Longrightarrow> x \<in> set (nodes_of t)"
  by (cases t) auto

lemma surgery:
  assumes "tree_at h par p t" "distinct (nodes_of t)" "x \<in> set (nodes_of t)"
    and sub: "tree_at h' (parent_at h x) q u"
    and frame: "\<And>a. a \<in> set (nodes_of t) \<Longrightarrow> a \<notin> set (nodes_of (sub_of t x))
                 \<Longrightarrow> Some a \<noteq> parent_at h x \<Longrightarrow> lookup h' a = lookup h a"
    and plink: "\<And>pa pn. parent_at h x = Some pa \<Longrightarrow> pa \<in> set (nodes_of t)
                 \<Longrightarrow> lookup h pa = Some pn \<Longrightarrow> lookup h' pa = Some (repl x q pn)"
  shows "tree_at h' par (if p = Some x then q else p) (subst_at t x u)"
  using assms(1,2,3) frame plink
proof (induction t arbitrary: par p)
  case Tip
  then show ?case by simp
next
  case (Br l a r)
  from Br.prems(1) obtain n where n: "p = Some a" "lookup h a = Some n" "parent n = par"
    "tree_at h (Some a) (left n) l" "tree_at h (Some a) (right n) r"
    by auto
  have d: "distinct (nodes_of l)" "distinct (nodes_of r)" "a \<notin> set (nodes_of l)"
    "a \<notin> set (nodes_of r)" "set (nodes_of l) \<inter> set (nodes_of r) = {}"
    using Br.prems(2) by auto
  show ?case
  proof (cases "x = a")
    case True
    with n sub show ?thesis by (simp add: parent_at_def)
  next
    case False
    show ?thesis
    proof (cases "x \<in> set (nodes_of l)")
      case True
      have subl: "set (nodes_of (sub_of l x)) \<subseteq> set (nodes_of l)" by (rule sub_of_nodes)
      have IH: "tree_at h' (Some a) (if left n = Some x then q else left n) (subst_at l x u)"
      proof (rule Br.IH(1)[OF n(4) d(1) True])
        fix b assume "b \<in> set (nodes_of l)" "b \<notin> set (nodes_of (sub_of l x))"
          "Some b \<noteq> parent_at h x"
        then show "lookup h' b = lookup h b"
          using Br.prems(4)[of b] False True by simp
      next
        fix pa pn assume "parent_at h x = Some pa" "pa \<in> set (nodes_of l)" "lookup h pa = Some pn"
        then show "lookup h' pa = Some (repl x q pn)"
          using Br.prems(5)[of pa pn] by simp
      qed
      have par_x: "(left n = Some x \<and> parent_at h x = Some a) \<or>
        (left n \<noteq> Some x \<and> (\<exists>pa. parent_at h x = Some pa \<and> pa \<in> set (nodes_of l)))"
        using tree_at_parent[OF n(4) d(1) True] by auto
      have r': "tree_at h' (Some a) (right n) r"
      proof -
        have "\<And>b. b \<in> set (nodes_of r) \<Longrightarrow> lookup h' b = lookup h b"
        proof -
          fix b assume b: "b \<in> set (nodes_of r)"
          then have "b \<notin> set (nodes_of l)" "b \<noteq> a" using d by auto
          then have "b \<notin> set (nodes_of (sub_of l x))" "Some b \<noteq> parent_at h x"
            using subl par_x by auto
          then show "lookup h' b = lookup h b"
            using Br.prems(4)[of b] b False True by simp
        qed
        then have "tree_at h' (Some a) (right n) r = tree_at h (Some a) (right n) r"
          by (rule tree_at_frame)
        then show ?thesis using n(5) by simp
      qed
      have rx: "right n \<noteq> Some x"
      proof
        assume "right n = Some x"
        with n(5) have "x \<in> set (nodes_of r)" by (simp add: tree_at_root_in)
        with True d(5) show False by auto
      qed
      from par_x show ?thesis
      proof
        assume c: "left n = Some x \<and> parent_at h x = Some a"
        then have "lookup h' a = Some (repl x q n)"
          using Br.prems(5)[of a n] n by simp
        with c rx IH r' n False True show ?thesis by (simp add: repl_def)
      next
        assume c: "left n \<noteq> Some x \<and> (\<exists>pa. parent_at h x = Some pa \<and> pa \<in> set (nodes_of l))"
        then have "Some a \<noteq> parent_at h x" using d(3) by auto
        moreover have "a \<notin> set (nodes_of (sub_of l x))" using subl d(3) by auto
        ultimately have "lookup h' a = lookup h a"
          using Br.prems(4)[of a] False True by simp
        with c IH r' n False True show ?thesis by simp
      qed
    next
      case nl: False
      with False Br.prems(3) have xr: "x \<in> set (nodes_of r)" by auto
      have subr: "set (nodes_of (sub_of r x)) \<subseteq> set (nodes_of r)" by (rule sub_of_nodes)
      have IH: "tree_at h' (Some a) (if right n = Some x then q else right n) (subst_at r x u)"
      proof (rule Br.IH(2)[OF n(5) d(2) xr])
        fix b assume "b \<in> set (nodes_of r)" "b \<notin> set (nodes_of (sub_of r x))"
          "Some b \<noteq> parent_at h x"
        then show "lookup h' b = lookup h b"
          using Br.prems(4)[of b] False nl by simp
      next
        fix pa pn assume "parent_at h x = Some pa" "pa \<in> set (nodes_of r)" "lookup h pa = Some pn"
        then show "lookup h' pa = Some (repl x q pn)"
          using Br.prems(5)[of pa pn] by simp
      qed
      have par_x: "(right n = Some x \<and> parent_at h x = Some a) \<or>
        (right n \<noteq> Some x \<and> (\<exists>pa. parent_at h x = Some pa \<and> pa \<in> set (nodes_of r)))"
        using tree_at_parent[OF n(5) d(2) xr] by auto
      have l': "tree_at h' (Some a) (left n) l"
      proof -
        have "\<And>b. b \<in> set (nodes_of l) \<Longrightarrow> lookup h' b = lookup h b"
        proof -
          fix b assume b: "b \<in> set (nodes_of l)"
          then have "b \<notin> set (nodes_of r)" "b \<noteq> a" using d by auto
          then have "b \<notin> set (nodes_of (sub_of r x))" "Some b \<noteq> parent_at h x"
            using subr par_x by auto
          then show "lookup h' b = lookup h b"
            using Br.prems(4)[of b] b False nl by simp
        qed
        then have "tree_at h' (Some a) (left n) l = tree_at h (Some a) (left n) l"
          by (rule tree_at_frame)
        then show ?thesis using n(4) by simp
      qed
      have lx: "left n \<noteq> Some x"
      proof
        assume "left n = Some x"
        with n(4) have "x \<in> set (nodes_of l)" by (simp add: tree_at_root_in)
        with nl show False by auto
      qed
      from par_x show ?thesis
      proof
        assume c: "right n = Some x \<and> parent_at h x = Some a"
        then have "lookup h' a = Some (repl x q n)"
          using Br.prems(5)[of a n] n by simp
        with c lx IH l' n False nl show ?thesis by (simp add: repl_def)
      next
        assume c: "right n \<noteq> Some x \<and> (\<exists>pa. parent_at h x = Some pa \<and> pa \<in> set (nodes_of r))"
        then have "Some a \<noteq> parent_at h x" using d(4) by auto
        moreover have "a \<notin> set (nodes_of (sub_of r x))" using subr d(4) by auto
        ultimately have "lookup h' a = lookup h a"
          using Br.prems(4)[of a] False nl by simp
        with c IH l' n False nl show ?thesis by simp
      qed
    qed
  qed
qed

lemma rotl_tree:
  assumes x: "lookup h x = Some xn" "right xn = Some b"
    and b: "lookup h b = Some bn"
    and A: "tree_at h (Some x) (left xn) A"
    and B: "tree_at h (Some b) (left bn) B"
    and C: "tree_at h (Some b) (right bn) C"
    and d: "distinct (nodes_of A @ x # nodes_of B @ b # nodes_of C)"
    and pa: "\<And>pa. parent xn = Some pa \<Longrightarrow> pa \<notin> set (nodes_of A @ x # nodes_of B @ b # nodes_of C)"
    and h': "\<And>a. lookup h' a = rotl_lookup h x xn b bn a"
  shows "tree_at h' (case parent xn of None \<Rightarrow> parent bn | Some pa \<Rightarrow> Some pa) (Some b) (Br (Br A x B) b C)"
proof -
  have xb: "x \<noteq> b" using d by auto
  have lb: "lookup h' b = Some (bn\<lparr>left := Some x,
      parent := (case parent xn of None \<Rightarrow> parent bn | Some pa \<Rightarrow> Some pa)\<rparr>)"
    using xb by (simp add: h' rotl_lookup_def)
  have lx: "lookup h' x = Some (xn\<lparr>right := left bn, parent := Some b\<rparr>)"
    by (simp add: h' rotl_lookup_def)
  have inB: "\<And>a. Some a = left bn \<Longrightarrow> a \<in> set (nodes_of B)"
  proof -
    fix a assume "Some a = left bn"
    then have "left bn = Some a" by simp
    with B have "tree_at h (Some b) (Some a) B" by simp
    then show "a \<in> set (nodes_of B)" by (rule tree_at_root_in)
  qed
  have other: "\<And>a. a \<noteq> x \<Longrightarrow> a \<noteq> b \<Longrightarrow> Some a \<noteq> left bn \<Longrightarrow> Some a \<noteq> parent xn
      \<Longrightarrow> lookup h' a = lookup h a"
    by (simp add: h' rotl_lookup_def)
  have notpar: "\<And>a. a \<in> set (nodes_of A @ x # nodes_of B @ b # nodes_of C) \<Longrightarrow> Some a \<noteq> parent xn"
  proof
    fix a assume a: "a \<in> set (nodes_of A @ x # nodes_of B @ b # nodes_of C)" and e: "Some a = parent xn"
    from e have "parent xn = Some a" by simp
    from pa[OF this] a show False by simp
  qed
  have A': "tree_at h' (Some x) (left xn) A"
  proof -
    have "\<And>a. a \<in> set (nodes_of A) \<Longrightarrow> lookup h' a = lookup h a"
    proof (rule other)
      fix a assume a: "a \<in> set (nodes_of A)"
      show "a \<noteq> x" "a \<noteq> b" using a d by auto
      show "Some a \<noteq> left bn" using a d inB by auto
      show "Some a \<noteq> parent xn" using a notpar by simp
    qed
    then have "tree_at h' (Some x) (left xn) A = tree_at h (Some x) (left xn) A"
      by (rule tree_at_frame)
    then show ?thesis using A by simp
  qed
  have C': "tree_at h' (Some b) (right bn) C"
  proof -
    have "\<And>a. a \<in> set (nodes_of C) \<Longrightarrow> lookup h' a = lookup h a"
    proof (rule other)
      fix a assume a: "a \<in> set (nodes_of C)"
      show "a \<noteq> x" "a \<noteq> b" using a d by auto
      show "Some a \<noteq> left bn" using a d inB by auto
      show "Some a \<noteq> parent xn" using a notpar by simp
    qed
    then have "tree_at h' (Some b) (right bn) C = tree_at h (Some b) (right bn) C"
      by (rule tree_at_frame)
    then show ?thesis using C by simp
  qed
  have B': "tree_at h' (Some x) (left bn) B"
  proof (cases B)
    case Tip
    with B show ?thesis by simp
  next
    case (Br Bl c Br2)
    with B obtain cn where cn: "left bn = Some c" "lookup h c = Some cn" "parent cn = Some b"
      "tree_at h (Some c) (left cn) Bl" "tree_at h (Some c) (right cn) Br2"
      by auto
    have cne: "c \<noteq> x" "c \<noteq> b" using d Br by auto
    have lc: "lookup h' c = Some (cn\<lparr>parent := Some x\<rparr>)"
      using cne cn by (simp add: h' rotl_lookup_def)
    have sub: "\<And>a. a \<in> set (nodes_of Bl) \<union> set (nodes_of Br2) \<Longrightarrow> lookup h' a = lookup h a"
    proof (rule other)
      fix a assume a: "a \<in> set (nodes_of Bl) \<union> set (nodes_of Br2)"
      then have aB: "a \<in> set (nodes_of B)" "a \<noteq> c" using Br d by auto
      show "a \<noteq> x" "a \<noteq> b" using aB d by auto
      show "Some a \<noteq> left bn" using aB cn by auto
      show "Some a \<noteq> parent xn" using aB notpar by simp
    qed
    have "tree_at h' (Some c) (left cn) Bl = tree_at h (Some c) (left cn) Bl"
      by (rule tree_at_frame) (simp add: sub)
    moreover have "tree_at h' (Some c) (right cn) Br2 = tree_at h (Some c) (right cn) Br2"
      by (rule tree_at_frame) (simp add: sub)
    ultimately show ?thesis using Br cn lc by simp
  qed
  show ?thesis using lb lx A' B' C' x by simp
qed

lemma rotr_tree:
  assumes x: "lookup h x = Some xn" "left xn = Some b"
    and b: "lookup h b = Some bn"
    and A: "tree_at h (Some x) (right xn) A"
    and B: "tree_at h (Some b) (right bn) B"
    and C: "tree_at h (Some b) (left bn) C"
    and d: "distinct (nodes_of C @ b # nodes_of B @ x # nodes_of A)"
    and pa: "\<And>pa. parent xn = Some pa \<Longrightarrow> pa \<notin> set (nodes_of C @ b # nodes_of B @ x # nodes_of A)"
    and h': "\<And>a. lookup h' a = rotr_lookup h x xn b bn a"
  shows "tree_at h' (case parent xn of None \<Rightarrow> parent bn | Some pa \<Rightarrow> Some pa) (Some b) (Br C b (Br B x A))"
proof -
  have xb: "x \<noteq> b" using d by auto
  have lb: "lookup h' b = Some (bn\<lparr>right := Some x,
      parent := (case parent xn of None \<Rightarrow> parent bn | Some pa \<Rightarrow> Some pa)\<rparr>)"
    using xb by (simp add: h' rotr_lookup_def)
  have lx: "lookup h' x = Some (xn\<lparr>left := right bn, parent := Some b\<rparr>)"
    by (simp add: h' rotr_lookup_def)
  have inB: "\<And>a. Some a = right bn \<Longrightarrow> a \<in> set (nodes_of B)"
  proof -
    fix a assume "Some a = right bn"
    then have "right bn = Some a" by simp
    with B have "tree_at h (Some b) (Some a) B" by simp
    then show "a \<in> set (nodes_of B)" by (rule tree_at_root_in)
  qed
  have other: "\<And>a. a \<noteq> x \<Longrightarrow> a \<noteq> b \<Longrightarrow> Some a \<noteq> right bn \<Longrightarrow> Some a \<noteq> parent xn
      \<Longrightarrow> lookup h' a = lookup h a"
    by (simp add: h' rotr_lookup_def)
  have notpar: "\<And>a. a \<in> set (nodes_of C @ b # nodes_of B @ x # nodes_of A) \<Longrightarrow> Some a \<noteq> parent xn"
  proof
    fix a assume a: "a \<in> set (nodes_of C @ b # nodes_of B @ x # nodes_of A)" and e: "Some a = parent xn"
    from e have "parent xn = Some a" by simp
    from pa[OF this] a show False by simp
  qed
  have A': "tree_at h' (Some x) (right xn) A"
  proof -
    have "\<And>a. a \<in> set (nodes_of A) \<Longrightarrow> lookup h' a = lookup h a"
    proof (rule other)
      fix a assume a: "a \<in> set (nodes_of A)"
      show "a \<noteq> x" "a \<noteq> b" using a d by auto
      show "Some a \<noteq> right bn" using a d inB by auto
      show "Some a \<noteq> parent xn" using a notpar by simp
    qed
    then have "tree_at h' (Some x) (right xn) A = tree_at h (Some x) (right xn) A"
      by (rule tree_at_frame)
    then show ?thesis using A by simp
  qed
  have C': "tree_at h' (Some b) (left bn) C"
  proof -
    have "\<And>a. a \<in> set (nodes_of C) \<Longrightarrow> lookup h' a = lookup h a"
    proof (rule other)
      fix a assume a: "a \<in> set (nodes_of C)"
      show "a \<noteq> x" "a \<noteq> b" using a d by auto
      show "Some a \<noteq> right bn" using a d inB by auto
      show "Some a \<noteq> parent xn" using a notpar by simp
    qed
    then have "tree_at h' (Some b) (left bn) C = tree_at h (Some b) (left bn) C"
      by (rule tree_at_frame)
    then show ?thesis using C by simp
  qed
  have B': "tree_at h' (Some x) (right bn) B"
  proof (cases B)
    case Tip
    with B show ?thesis by simp
  next
    case (Br Bl c Br2)
    with B obtain cn where cn: "right bn = Some c" "lookup h c = Some cn" "parent cn = Some b"
      "tree_at h (Some c) (left cn) Bl" "tree_at h (Some c) (right cn) Br2"
      by auto
    have cne: "c \<noteq> x" "c \<noteq> b" using d Br by auto
    have lc: "lookup h' c = Some (cn\<lparr>parent := Some x\<rparr>)"
      using cne cn by (simp add: h' rotr_lookup_def)
    have sub: "\<And>a. a \<in> set (nodes_of Bl) \<union> set (nodes_of Br2) \<Longrightarrow> lookup h' a = lookup h a"
    proof (rule other)
      fix a assume a: "a \<in> set (nodes_of Bl) \<union> set (nodes_of Br2)"
      then have aB: "a \<in> set (nodes_of B)" "a \<noteq> c" using Br d by auto
      show "a \<noteq> x" "a \<noteq> b" using aB d by auto
      show "Some a \<noteq> right bn" using aB cn by auto
      show "Some a \<noteq> parent xn" using aB notpar by simp
    qed
    have "tree_at h' (Some c) (left cn) Bl = tree_at h (Some c) (left cn) Bl"
      by (rule tree_at_frame) (simp add: sub)
    moreover have "tree_at h' (Some c) (right cn) Br2 = tree_at h (Some c) (right cn) Br2"
      by (rule tree_at_frame) (simp add: sub)
    ultimately show ?thesis using Br cn lc by simp
  qed
  show ?thesis using lb lx A' B' C' x by simp
qed

lemma same_data_refl [simp]: "same_data h h"
  by (simp add: same_data_def)

lemma same_data_trans: "same_data h h1 \<Longrightarrow> same_data h1 h2 \<Longrightarrow> same_data h h2"
  by (simp add: same_data_def)

lemma rotl_same_data:
  assumes "\<And>a. lookup h' a = rotl_lookup h x xn b bn a" "lookup h x = Some xn"
    "lookup h b = Some bn" "length h' = length h"
  shows "same_data h h'"
  unfolding same_data_def
proof (intro conjI allI)
  show "length h' = length h" by (fact assms(4))
next
  fix a
  show "map_option (\<lambda>n. (key n, val n, height n, balance n)) (lookup h' a)
      = map_option (\<lambda>n. (key n, val n, height n, balance n)) (lookup h a)"
    using assms(2,3) by (cases "lookup h a") (auto simp: assms(1) rotl_lookup_def repl_def)
qed

lemma rotate_left_in_tree:
  assumes t: "tree_at h par p t" "distinct (nodes_of t)"
    and x: "x \<in> set (nodes_of t)" "p \<noteq> Some x"
  shows "\<exists>h' t'. rotate_left h x = Some h' \<and> tree_at h' par p t' \<and> nodes_of t' = nodes_of t
           \<and> same_data h h' \<and> (\<forall>a. a \<notin> set (nodes_of t) \<longrightarrow> lookup h' a = lookup h a)"
proof -
  from tree_at_parent[OF t x(1)] x(2) obtain pa pn where
    pa: "parent_at h x = Some pa" "pa \<in> set (nodes_of t)"
      "pa \<notin> set (nodes_of (sub_of t x))" "lookup h pa = Some pn"
      "left pn = Some x \<or> right pn = Some x"
    by auto
  have sub: "tree_at h (Some pa) (Some x) (sub_of t x)"
    using tree_at_sub[OF t(1) x(1)] pa by simp
  have subn: "set (nodes_of (sub_of t x)) \<subseteq> set (nodes_of t)" by (rule sub_of_nodes)
  have dsub: "distinct (nodes_of (sub_of t x))" using t(2) by (rule sub_of_distinct)
  obtain A R where AR: "sub_of t x = Br A x R"
    using sub_of_root[OF x(1)] by auto
  from sub AR obtain xn where xn: "lookup h x = Some xn" "parent xn = Some pa"
    "tree_at h (Some x) (left xn) A" "tree_at h (Some x) (right xn) R"
    by auto
  show ?thesis
  proof (cases R)
    case Tip
    with xn have "right xn = None" by simp
    then have "rotate_left h x = Some h" using xn by (simp add: rotate_left_def)
    with t show ?thesis by auto
  next
    case (Br R1 b R2)
    obtain B C where BC: "R = Br B b C" using Br by auto
    from xn(4) BC obtain bn where bn: "right xn = Some b" "lookup h b = Some bn"
      "tree_at h (Some b) (left bn) B" "tree_at h (Some b) (right bn) C"
      by auto
    have dl: "distinct (nodes_of A @ x # nodes_of B @ b # nodes_of C)" using dsub AR BC by simp
    have nl: "set (nodes_of (sub_of t x)) = set (nodes_of A @ x # nodes_of B @ b # nodes_of C)" using AR BC by auto
    have inB: "\<And>c. left bn = Some c \<Longrightarrow> c \<in> set (nodes_of B) \<and> (\<exists>cn. lookup h c = Some cn)"
    proof -
      fix c assume "left bn = Some c"
      with bn(3) have "tree_at h (Some b) (Some c) B" by simp
      then show "c \<in> set (nodes_of B) \<and> (\<exists>cn. lookup h c = Some cn)" by (cases B) auto
    qed
    have "\<exists>h'. rotate_left h x = Some h' \<and> length h' = length h
           \<and> (\<forall>a. lookup h' a = rotl_lookup h x xn b bn a)"
    proof (rule rotate_left_lookup)
      show "lookup h x = Some xn" "right xn = Some b" "lookup h b = Some bn" by (fact xn bn)+
      show "x \<noteq> b" using dl by auto
    next
      fix pa' assume "parent xn = Some pa'"
      with xn have e: "pa' = pa" by simp
      have "pa \<noteq> x" "pa \<noteq> b" using pa(3) nl by auto
      moreover have "left bn \<noteq> Some pa"
      proof
        assume "left bn = Some pa"
        from inB[OF this] have "pa \<in> set (nodes_of B)" by simp
        with pa(3) nl show False by auto
      qed
      ultimately show "pa' \<noteq> x \<and> pa' \<noteq> b \<and> left bn \<noteq> Some pa'
         \<and> (\<exists>pn. lookup h pa' = Some pn \<and> (left pn = Some x \<or> right pn = Some x))"
        using e pa by auto
    next
      fix c assume c: "left bn = Some c"
      from inB[OF c] have "c \<in> set (nodes_of B)" "\<exists>cn. lookup h c = Some cn" by auto
      then show "c \<noteq> x \<and> c \<noteq> b \<and> (\<exists>cn. lookup h c = Some cn)" using dl by auto
    qed
    then obtain h' where h': "rotate_left h x = Some h'" "length h' = length h"
      "\<And>a. lookup h' a = rotl_lookup h x xn b bn a"
      by blast
    have u: "tree_at h' (Some pa) (Some b) (Br (Br A x B) b C)"
    proof -
      have "tree_at h' (case parent xn of None \<Rightarrow> parent bn | Some pa \<Rightarrow> Some pa) (Some b) (Br (Br A x B) b C)"
      proof (rule rotl_tree[OF xn(1) bn(1) bn(2) xn(3) bn(3) bn(4) dl _ h'(3)])
        fix pa' assume "parent xn = Some pa'"
        with xn have "pa' = pa" by simp
        then show "pa' \<notin> set (nodes_of A @ x # nodes_of B @ b # nodes_of C)" using pa(3) nl by simp
      qed
      then show ?thesis using xn by simp
    qed
    have inB': "\<And>a. Some a = left bn \<Longrightarrow> a \<in> set (nodes_of (sub_of t x))"
    proof -
      fix a assume "Some a = left bn"
      then have "left bn = Some a" by simp
      from inB[OF this] show "a \<in> set (nodes_of (sub_of t x))" using nl by auto
    qed
    have other: "\<And>a. a \<notin> set (nodes_of (sub_of t x)) \<Longrightarrow> a \<noteq> pa \<Longrightarrow> lookup h' a = lookup h a"
    proof -
      fix a assume a: "a \<notin> set (nodes_of (sub_of t x))" "a \<noteq> pa"
      then have "a \<noteq> x" "a \<noteq> b" "Some a \<noteq> left bn" "Some a \<noteq> parent xn"
        using nl inB' xn by auto
      then show "lookup h' a = lookup h a" by (simp add: h'(3) rotl_lookup_def)
    qed
    have st: "tree_at h' par (if p = Some x then Some b else p) (subst_at t x (Br (Br A x B) b C))"
    proof (rule surgery[OF t x(1)])
      show "tree_at h' (parent_at h x) (Some b) (Br (Br A x B) b C)" using u pa by simp
    next
      fix a assume "a \<in> set (nodes_of t)" "a \<notin> set (nodes_of (sub_of t x))"
        "Some a \<noteq> parent_at h x"
      then show "lookup h' a = lookup h a" using other pa by auto
    next
      fix pa' pn' assume "parent_at h x = Some pa'" "pa' \<in> set (nodes_of t)"
        "lookup h pa' = Some pn'"
      then have e: "pa' = pa" "pn' = pn" using pa by auto
      have "pa \<noteq> x" "pa \<noteq> b" "Some pa \<noteq> left bn" using pa(3) nl inB' by auto
      then show "lookup h' pa' = Some (repl x (Some b) pn')"
        using e pa xn by (simp add: h'(3) rotl_lookup_def)
    qed
    obtain pre post where pp: "nodes_of t = pre @ nodes_of (sub_of t x) @ post"
      "nodes_of (subst_at t x (Br (Br A x B) b C)) = pre @ nodes_of (Br (Br A x B) b C) @ post"
      using subst_at_nodes[OF t(2) x(1), of "Br (Br A x B) b C"] by blast
    have nodes: "nodes_of (subst_at t x (Br (Br A x B) b C)) = nodes_of t"
      using pp AR BC by simp
    have sd: "same_data h h'"
      by (rule rotl_same_data[OF h'(3) xn(1) bn(2) h'(2)])
    have fr: "\<forall>a. a \<notin> set (nodes_of t) \<longrightarrow> lookup h' a = lookup h a"
      using other subn pa by auto
    show ?thesis using h'(1) st x(2) nodes sd fr by auto
  qed
qed

lemma rotate_left_root:
  assumes t: "tree_at h None (Some x) t" "distinct (nodes_of t)"
    and x: "lookup h x = Some xn" "right xn = Some b"
  shows "\<exists>h0 h' t'. modify h b (\<lambda>n. n\<lparr>parent := None\<rparr>) = Some h0 \<and> rotate_left h0 x = Some h'
           \<and> tree_at h' None (Some b) t' \<and> nodes_of t' = nodes_of t
           \<and> same_data h h' \<and> (\<forall>a. a \<notin> set (nodes_of t) \<longrightarrow> lookup h' a = lookup h a)"
proof -
  from t(1) x obtain A R where AR: "t = Br A x R" by (cases t) auto
  from t(1) AR x have xn: "parent xn = None"
    "tree_at h (Some x) (left xn) A" "tree_at h (Some x) (right xn) R"
    by auto
  from xn(3) x(2) obtain B C where BC: "R = Br B b C" by (cases R) auto
  from xn(3) BC x(2) obtain bn where bn: "lookup h b = Some bn"
    "tree_at h (Some b) (left bn) B" "tree_at h (Some b) (right bn) C"
    by auto
  have dl: "distinct (nodes_of A @ x # nodes_of B @ b # nodes_of C)" using t(2) AR BC by simp
  have nl: "set (nodes_of t) = set (nodes_of A @ x # nodes_of B @ b # nodes_of C)" using AR BC by auto
  have xb: "x \<noteq> b" using dl by auto
  have lenb: "b < length h" using bn by (auto dest: lookup_length)
  define h0 where "h0 = h[b := Some (bn\<lparr>parent := None\<rparr>)]"
  have m: "modify h b (\<lambda>n. n\<lparr>parent := None\<rparr>) = Some h0"
    using bn by (simp add: modify_def h0_def)
  have l0: "\<And>a. lookup h0 a = (if a = b then Some (bn\<lparr>parent := None\<rparr>) else lookup h a)"
    using lenb by (simp add: h0_def)
  have len0: "length h0 = length h" by (simp add: h0_def)
  have fr0: "\<And>u par q. b \<notin> set (nodes_of u) \<Longrightarrow> tree_at h0 par q u = tree_at h par q u"
    by (rule tree_at_frame) (auto simp: l0)
  have inB: "\<And>c. left bn = Some c \<Longrightarrow> c \<in> set (nodes_of B) \<and> (\<exists>cn. lookup h c = Some cn)"
  proof -
    fix c assume "left bn = Some c"
    with bn(2) have "tree_at h (Some b) (Some c) B" by simp
    then show "c \<in> set (nodes_of B) \<and> (\<exists>cn. lookup h c = Some cn)" by (cases B) auto
  qed
  have "\<exists>h'. rotate_left h0 x = Some h' \<and> length h' = length h0
         \<and> (\<forall>a. lookup h' a = rotl_lookup h0 x xn b (bn\<lparr>parent := None\<rparr>) a)"
  proof (rule rotate_left_lookup)
    show "lookup h0 x = Some xn" using x xb by (simp add: l0)
    show "right xn = Some b" by (fact x)
    show "lookup h0 b = Some (bn\<lparr>parent := None\<rparr>)" by (simp add: l0)
    show "x \<noteq> b" by (fact xb)
  next
    fix pa assume "parent xn = Some pa"
    with xn(1) show "pa \<noteq> x \<and> pa \<noteq> b \<and> left (bn\<lparr>parent := None\<rparr>) \<noteq> Some pa
       \<and> (\<exists>pn. lookup h0 pa = Some pn \<and> (left pn = Some x \<or> right pn = Some x))"
      by simp
  next
    fix c assume "left (bn\<lparr>parent := None\<rparr>) = Some c"
    then have c: "left bn = Some c" by simp
    from inB[OF c] have "c \<in> set (nodes_of B)" "\<exists>cn. lookup h c = Some cn" by auto
    then show "c \<noteq> x \<and> c \<noteq> b \<and> (\<exists>cn. lookup h0 c = Some cn)" using dl by (auto simp: l0)
  qed
  then obtain h' where h': "rotate_left h0 x = Some h'" "length h' = length h0"
    "\<And>a. lookup h' a = rotl_lookup h0 x xn b (bn\<lparr>parent := None\<rparr>) a"
    by blast
  have u: "tree_at h' None (Some b) (Br (Br A x B) b C)"
  proof -
    have "tree_at h' (case parent xn of None \<Rightarrow> parent (bn\<lparr>parent := None\<rparr>)
                       | Some pa \<Rightarrow> Some pa) (Some b) (Br (Br A x B) b C)"
    proof (rule rotl_tree[where h = h0 and bn = "bn\<lparr>parent := None\<rparr>" and xn = xn])
      show "lookup h0 x = Some xn" using x xb by (simp add: l0)
      show "right xn = Some b" by (fact x)
      show "lookup h0 b = Some (bn\<lparr>parent := None\<rparr>)" by (simp add: l0)
      show "tree_at h0 (Some x) (left xn) A" using xn(2) dl by (simp add: fr0)
      show "tree_at h0 (Some b) (left (bn\<lparr>parent := None\<rparr>)) B" using bn(2) dl by (simp add: fr0)
      show "tree_at h0 (Some b) (right (bn\<lparr>parent := None\<rparr>)) C" using bn(3) dl by (simp add: fr0)
      show "distinct (nodes_of A @ x # nodes_of B @ b # nodes_of C)" by (fact dl)
      show "\<And>pa. parent xn = Some pa \<Longrightarrow> pa \<notin> set (nodes_of A @ x # nodes_of B @ b # nodes_of C)" using xn(1) by simp
      show "\<And>a. lookup h' a = rotl_lookup h0 x xn b (bn\<lparr>parent := None\<rparr>) a" by (fact h'(3))
    qed
    then show ?thesis using xn(1) by simp
  qed
  have nodes: "nodes_of (Br (Br A x B) b C) = nodes_of t" using AR BC by simp
  have sd0: "same_data h h0"
    using bn by (auto simp: same_data_def l0 len0)
  have sd1: "same_data h0 h'"
  proof (rule rotl_same_data[OF h'(3) _ _ h'(2)])
    show "lookup h0 x = Some xn" using x xb by (simp add: l0)
    show "lookup h0 b = Some (bn\<lparr>parent := None\<rparr>)" by (simp add: l0)
  qed
  have sd: "same_data h h'" using sd0 sd1 by (rule same_data_trans)
  have inB': "\<And>a. Some a = left bn \<Longrightarrow> a \<in> set (nodes_of t)"
  proof -
    fix a assume "Some a = left bn"
    then have "left bn = Some a" by simp
    from inB[OF this] show "a \<in> set (nodes_of t)" using nl by auto
  qed
  have fr: "\<forall>a. a \<notin> set (nodes_of t) \<longrightarrow> lookup h' a = lookup h a"
  proof (intro allI impI)
    fix a assume a: "a \<notin> set (nodes_of t)"
    then have "a \<noteq> x" "a \<noteq> b" "Some a \<noteq> left bn" using nl inB' by auto
    then show "lookup h' a = lookup h a" using xn(1) by (simp add: h'(3) rotl_lookup_def l0)
  qed
  show ?thesis using m h'(1) u nodes sd fr by blast
qed

lemma rotr_same_data:
  assumes "\<And>a. lookup h' a = rotr_lookup h x xn b bn a" "lookup h x = Some xn"
    "lookup h b = Some bn" "length h' = length h"
  shows "same_data h h'"
  unfolding same_data_def
proof (intro conjI allI)
  show "length h' = length h" by (fact assms(4))
next
  fix a
  show "map_option (\<lambda>n. (key n, val n, height n, balance n)) (lookup h' a)
      = map_option (\<lambda>n. (key n, val n, height n, balance n)) (lookup h a)"
    using assms(2,3) by (cases "lookup h a") (auto simp: assms(1) rotr_lookup_def repl_def)
qed

lemma rotate_right_in_tree:
  assumes t: "tree_at h par p t" "distinct (nodes_of t)"
    and x: "x \<in> set (nodes_of t)" "p \<noteq> Some x"
  shows "\<exists>h' t'. rotate_right h x = Some h' \<and> tree_at h' par p t' \<and> nodes_of t' = nodes_of t
           \<and> same_data h h' \<and> (\<forall>a. a \<notin> set (nodes_of t) \<longrightarrow> lookup h' a = lookup h a)"
proof -
  from tree_at_parent[OF t x(1)] x(2) obtain pa pn where
    pa: "parent_at h x = Some pa" "pa \<in> set (nodes_of t)"
      "pa \<notin> set (nodes_of (sub_of t x))" "lookup h pa = Some pn"
      "left pn = Some x \<or> right pn = Some x"
    by auto
  have sub: "tree_at h (Some pa) (Some x) (sub_of t x)"
    using tree_at_sub[OF t(1) x(1)] pa by simp
  have subn: "set (nodes_of (sub_of t x)) \<subseteq> set (nodes_of t)" by (rule sub_of_nodes)
  have dsub: "distinct (nodes_of (sub_of t x))" using t(2) by (rule sub_of_distinct)
  obtain A R where AR: "sub_of t x = Br R x A"
    using sub_of_root[OF x(1)] by auto
  from sub AR obtain xn where xn: "lookup h x = Some xn" "parent xn = Some pa"
    "tree_at h (Some x) (right xn) A" "tree_at h (Some x) (left xn) R"
    by auto
  show ?thesis
  proof (cases R)
    case Tip
    with xn have "left xn = None" by simp
    then have "rotate_right h x = Some h" using xn by (simp add: rotate_right_def)
    with t show ?thesis by auto
  next
    case (Br R1 b R2)
    obtain B C where BC: "R = Br C b B" using Br by auto
    from xn(4) BC obtain bn where bn: "left xn = Some b" "lookup h b = Some bn"
      "tree_at h (Some b) (right bn) B" "tree_at h (Some b) (left bn) C"
      by auto
    have dl: "distinct (nodes_of C @ b # nodes_of B @ x # nodes_of A)" using dsub AR BC by simp
    have nl: "set (nodes_of (sub_of t x)) = set (nodes_of C @ b # nodes_of B @ x # nodes_of A)" using AR BC by auto
    have inB: "\<And>c. right bn = Some c \<Longrightarrow> c \<in> set (nodes_of B) \<and> (\<exists>cn. lookup h c = Some cn)"
    proof -
      fix c assume "right bn = Some c"
      with bn(3) have "tree_at h (Some b) (Some c) B" by simp
      then show "c \<in> set (nodes_of B) \<and> (\<exists>cn. lookup h c = Some cn)" by (cases B) auto
    qed
    have "\<exists>h'. rotate_right h x = Some h' \<and> length h' = length h
           \<and> (\<forall>a. lookup h' a = rotr_lookup h x xn b bn a)"
    proof (rule rotate_right_lookup)
      show "lookup h x = Some xn" "left xn = Some b" "lookup h b = Some bn" by (fact xn bn)+
      show "x \<noteq> b" using dl by auto
    next
      fix pa' assume "parent xn = Some pa'"
      with xn have e: "pa' = pa" by simp
      have "pa \<noteq> x" "pa \<noteq> b" using pa(3) nl by auto
      moreover have "right bn \<noteq> Some pa"
      proof
        assume "right bn = Some pa"
        from inB[OF this] have "pa \<in> set (nodes_of B)" by simp
        with pa(3) nl show False by auto
      qed
      ultimately show "pa' \<noteq> x \<and> pa' \<noteq> b \<and> right bn \<noteq> Some pa'
         \<and> (\<exists>pn. lookup h pa' = Some pn \<and> (left pn = Some x \<or> right pn = Some x))"
        using e pa by auto
    next
      fix c assume c: "right bn = Some c"
      from inB[OF c] have "c \<in> set (nodes_of B)" "\<exists>cn. lookup h c = Some cn" by auto
      then show "c \<noteq> x \<and> c \<noteq> b \<and> (\<exists>cn. lookup h c = Some cn)" using dl by auto
    qed
    then obtain h' where h': "rotate_right h x = Some h'" "length h' = length h"
      "\<And>a. lookup h' a = rotr_lookup h x xn b bn a"
      by blast
    have u: "tree_at h' (Some pa) (Some b) (Br C b (Br B x A))"
    proof -
      have "tree_at h' (case parent xn of None \<Rightarrow> parent bn | Some pa \<Rightarrow> Some pa) (Some b) (Br C b (Br B x A))"
      proof (rule rotr_tree[OF xn(1) bn(1) bn(2) xn(3) bn(3) bn(4) dl _ h'(3)])
        fix pa' assume "parent xn = Some pa'"
        with xn have "pa' = pa" by simp
        then show "pa' \<notin> set (nodes_of C @ b # nodes_of B @ x # nodes_of A)" using pa(3) nl by simp
      qed
      then show ?thesis using xn by simp
    qed
    have inB': "\<And>a. Some a = right bn \<Longrightarrow> a \<in> set (nodes_of (sub_of t x))"
    proof -
      fix a assume "Some a = right bn"
      then have "right bn = Some a" by simp
      from inB[OF this] show "a \<in> set (nodes_of (sub_of t x))" using nl by auto
    qed
    have other: "\<And>a. a \<notin> set (nodes_of (sub_of t x)) \<Longrightarrow> a \<noteq> pa \<Longrightarrow> lookup h' a = lookup h a"
    proof -
      fix a assume a: "a \<notin> set (nodes_of (sub_of t x))" "a \<noteq> pa"
      then have "a \<noteq> x" "a \<noteq> b" "Some a \<noteq> right bn" "Some a \<noteq> parent xn"
        using nl inB' xn by auto
      then show "lookup h' a = lookup h a" by (simp add: h'(3) rotr_lookup_def)
    qed
    have st: "tree_at h' par (if p = Some x then Some b else p) (subst_at t x (Br C b (Br B x A)))"
    proof (rule surgery[OF t x(1)])
      show "tree_at h' (parent_at h x) (Some b) (Br C b (Br B x A))" using u pa by simp
    next
      fix a assume "a \<in> set (nodes_of t)" "a \<notin> set (nodes_of (sub_of t x))"
        "Some a \<noteq> parent_at h x"
      then show "lookup h' a = lookup h a" using other pa by auto
    next
      fix pa' pn' assume "parent_at h x = Some pa'" "pa' \<in> set (nodes_of t)"
        "lookup h pa' = Some pn'"
      then have e: "pa' = pa" "pn' = pn" using pa by auto
      have "pa \<noteq> x" "pa \<noteq> b" "Some pa \<noteq> right bn" using pa(3) nl inB' by auto
      then show "lookup h' pa' = Some (repl x (Some b) pn')"
        using e pa xn by (simp add: h'(3) rotr_lookup_def)
    qed
    obtain pre post where pp: "nodes_of t = pre @ nodes_of (sub_of t x) @ post"
      "nodes_of (subst_at t x (Br C b (Br B x A))) = pre @ nodes_of (Br C b (Br B x A)) @ post"
      using subst_at_nodes[OF t(2) x(1), of "Br C b (Br B x A)"] by blast
    have nodes: "nodes_of (subst_at t x (Br C b (Br B x A))) = nodes_of t"
      using pp AR BC by simp
    have sd: "same_data h h'"
      by (rule rotr_same_data[OF h'(3) xn(1) bn(2) h'(2)])
    have fr: "\<forall>a. a \<notin> set (nodes_of t) \<longrightarrow> lookup h' a = lookup h a"
      using other subn pa by auto
    show ?thesis using h'(1) st x(2) nodes sd fr by auto
  qed
qed

lemma rotate_right_root:
  assumes t: "tree_at h None (Some x) t" "distinct (nodes_of t)"
    and x: "lookup h x = Some xn" "left xn = Some b"
  shows "\<exists>h0 h' t'. modify h b (\<lambda>n. n\<lparr>parent := None\<rparr>) = Some h0 \<and> rotate_right h0 x = Some h'
           \<and> tree_at h' None (Some b) t' \<and> nodes_of t' = nodes_of t
           \<and> same_data h h' \<and> (\<forall>a. a \<notin> set (nodes_of t) \<longrightarrow> lookup h' a = lookup h a)"
proof -
  from t(1) x obtain A R where AR: "t = Br R x A" by (cases t) auto
  from t(1) AR x have xn: "parent xn = None"
    "tree_at h (Some x) (right xn) A" "tree_at h (Some x) (left xn) R"
    by auto
  from xn(3) x(2) obtain B C where BC: "R = Br C b B" by (cases R) auto
  from xn(3) BC x(2) obtain bn where bn: "lookup h b = Some bn"
    "tree_at h (Some b) (right bn) B" "tree_at h (Some b) (left bn) C"
    by auto
  have dl: "distinct (nodes_of C @ b # nodes_of B @ x # nodes_of A)" using t(2) AR BC by simp
  have nl: "set (nodes_of t) = set (nodes_of C @ b # nodes_of B @ x # nodes_of A)" using AR BC by auto
  have xb: "x \<noteq> b" using dl by auto
  have lenb: "b < length h" using bn by (auto dest: lookup_length)
  define h0 where "h0 = h[b := Some (bn\<lparr>parent := None\<rparr>)]"
  have m: "modify h b (\<lambda>n. n\<lparr>parent := None\<rparr>) = Some h0"
    using bn by (simp add: modify_def h0_def)
  have l0: "\<And>a. lookup h0 a = (if a = b then Some (bn\<lparr>parent := None\<rparr>) else lookup h a)"
    using lenb by (simp add: h0_def)
  have len0: "length h0 = length h" by (simp add: h0_def)
  have fr0: "\<And>u par q. b \<notin> set (nodes_of u) \<Longrightarrow> tree_at h0 par q u = tree_at h par q u"
    by (rule tree_at_frame) (auto simp: l0)
  have inB: "\<And>c. right bn = Some c \<Longrightarrow> c \<in> set (nodes_of B) \<and> (\<exists>cn. lookup h c = Some cn)"
  proof -
    fix c assume "right bn = Some c"
    with bn(2) have "tree_at h (Some b) (Some c) B" by simp
    then show "c \<in> set (nodes_of B) \<and> (\<exists>cn. lookup h c = Some cn)" by (cases B) auto
  qed
  have "\<exists>h'. rotate_right h0 x = Some h' \<and> length h' = length h0
         \<and> (\<forall>a. lookup h' a = rotr_lookup h0 x xn b (bn\<lparr>parent := None\<rparr>) a)"
  proof (rule rotate_right_lookup)
    show "lookup h0 x = Some xn" using x xb by (simp add: l0)
    show "left xn = Some b" by (fact x)
    show "lookup h0 b = Some (bn\<lparr>parent := None\<rparr>)" by (simp add: l0)
    show "x \<noteq> b" by (fact xb)
  next
    fix pa assume "parent xn = Some pa"
    with xn(1) show "pa \<noteq> x \<and> pa \<noteq> b \<and> right (bn\<lparr>parent := None\<rparr>) \<noteq> Some pa
       \<and> (\<exists>pn. lookup h0 pa = Some pn \<and> (left pn = Some x \<or> right pn = Some x))"
      by simp
  next
    fix c assume "right (bn\<lparr>parent := None\<rparr>) = Some c"
    then have c: "right bn = Some c" by simp
    from inB[OF c] have "c \<in> set (nodes_of B)" "\<exists>cn. lookup h c = Some cn" by auto
    then show "c \<noteq> x \<and> c \<noteq> b \<and> (\<exists>cn. lookup h0 c = Some cn)" using dl by (auto simp: l0)
  qed
  then obtain h' where h': "rotate_right h0 x = Some h'" "length h' = length h0"
    "\<And>a. lookup h' a = rotr_lookup h0 x xn b (bn\<lparr>parent := None\<rparr>) a"
    by blast
  have u: "tree_at h' None (Some b) (Br C b (Br B x A))"
  proof -
    have "tree_at h' (case parent xn of None \<Rightarrow> parent (bn\<lparr>parent := None\<rparr>)
                       | Some pa \<Rightarrow> Some pa) (Some b) (Br C b (Br B x A))"
    proof (rule rotr_tree[where h = h0 and bn = "bn\<lparr>parent := None\<rparr>" and xn = xn])
      show "lookup h0 x = Some xn" using x xb by (simp add: l0)
      show "left xn = Some b" by (fact x)
      show "lookup h0 b = Some (bn\<lparr>parent := None\<rparr>)" by (simp add: l0)
      show "tree_at h0 (Some x) (right xn) A" using xn(2) dl by (simp add: fr0)
      show "tree_at h0 (Some b) (right (bn\<lparr>parent := None\<rparr>)) B" using bn(2) dl by (simp add: fr0)
      show "tree_at h0 (Some b) (left (bn\<lparr>parent := None\<rparr>)) C" using bn(3) dl by (simp add: fr0)
      show "distinct (nodes_of C @ b # nodes_of B @ x # nodes_of A)" by (fact dl)
      show "\<And>pa. parent xn = Some pa \<Longrightarrow> pa \<notin> set (nodes_of C @ b # nodes_of B @ x # nodes_of A)" using xn(1) by simp
      show "\<And>a. lookup h' a = rotr_lookup h0 x xn b (bn\<lparr>parent := None\<rparr>) a" by (fact h'(3))
    qed
    then show ?thesis using xn(1) by simp
  qed
  have nodes: "nodes_of (Br C b (Br B x A)) = nodes_of t" using AR BC by simp
  have sd0: "same_data h h0"
    using bn by (auto simp: same_data_def l0 len0)
  have sd1: "same_data h0 h'"
  proof (rule rotr_same_data[OF h'(3) _ _ h'(2)])
    show "lookup h0 x = Some xn" using x xb by (simp add: l0)
    show "lookup h0 b = Some (bn\<lparr>parent := None\<rparr>)" by (simp add: l0)
  qed
  have sd: "same_data h h'" using sd0 sd1 by (rule same_data_trans)
  have inB': "\<And>a. Some a = right bn \<Longrightarrow> a \<in> set (nodes_of t)"
  proof -
    fix a assume "Some a = right bn"
    then have "right bn = Some a" by simp
    from inB[OF this] show "a \<in> set (nodes_of t)" using nl by auto
  qed
  have fr: "\<forall>a. a \<notin> set (nodes_of t) \<longrightarrow> lookup h' a = lookup h a"
  proof (intro allI impI)
    fix a assume a: "a \<notin> set (nodes_of t)"
    then have "a \<noteq> x" "a \<noteq> b" "Some a \<noteq> right bn" using nl inB' by auto
    then show "lookup h' a = lookup h a" using xn(1) by (simp add: h'(3) rotr_lookup_def l0)
  qed
  show ?thesis using m h'(1) u nodes sd fr by blast
qed

subsection \<open>Height bookkeeping leaves the links alone\<close>

lemma same_links_refl [simp]: "same_links h h"
  by (simp add: same_links_def)

lemma same_links_trans: "same_links h h1 \<Longrightarrow> same_links h1 h2 \<Longrightarrow> same_links h h2"
  by (simp add: same_links_def)

lemma same_links_lookup:
  "same_links h h' \<Longrightarrow> lookup h a = Some n \<Longrightarrow>
   \<exists>n'. lookup h' a = Some n' \<and> key n' = key n \<and> val n' = val n \<and> parent n' = parent n
        \<and> left n' = left n \<and> right n' = right n"
  by (cases "lookup h' a") (auto simp: same_links_def dest!: spec[of _ a])

lemma tree_at_same_links:
  "same_links h h' \<Longrightarrow> tree_at h par p t \<Longrightarrow> tree_at h' par p t"
proof (induction t arbitrary: par p)
  case Tip
  then show ?case by simp
next
  case (Br l a r)
  from Br.prems(2) obtain n where n: "p = Some a" "lookup h a = Some n" "parent n = par"
    "tree_at h (Some a) (left n) l" "tree_at h (Some a) (right n) r"
    by auto
  from same_links_lookup[OF Br.prems(1) n(2)] obtain n' where
    n': "lookup h' a = Some n'" "parent n' = parent n" "left n' = left n" "right n' = right n"
    by auto
  show ?case using n n' Br.IH(1)[OF Br.prems(1) n(4)] Br.IH(2)[OF Br.prems(1) n(5)] by simp
qed

lemma modify_height_links:
  "lookup h a = Some n \<Longrightarrow>
   same_links h (h[a := Some (n\<lparr>height := v\<rparr>)]) \<and> same_links h (h[a := Some (n\<lparr>balance := w\<rparr>)])"
  by (auto simp: same_links_def)

lemma child_height_tree:
  "tree_at h par c t \<Longrightarrow> \<exists>v. child_height h c = Some v"
  by (cases t) (auto simp: child_height_def)

lemma update_height_tree:
  assumes "tree_at h par (Some a) t"
  shows "\<exists>h'. update_height h a = Some h' \<and> same_links h h'
           \<and> (\<forall>b. b \<noteq> a \<longrightarrow> lookup h' b = lookup h b)"
proof -
  from assms obtain l r where t: "t = Br l a r" by (cases t) auto
  with assms obtain n where n: "lookup h a = Some n" "tree_at h (Some a) (left n) l"
    "tree_at h (Some a) (right n) r" by auto
  from child_height_tree[OF n(2)] child_height_tree[OF n(3)] obtain vl vr where
    v: "child_height h (left n) = Some vl" "child_height h (right n) = Some vr" by auto
  have len: "a < length h" using n by (auto dest: lookup_length)
  show ?thesis
  proof (cases "has_children n")
    case True
    with n v len modify_height_links[OF n(1)] show ?thesis
      by (simp add: update_height_def modify_def)
  next
    case False
    with n show ?thesis by (simp add: update_height_def)
  qed
qed

lemma propagate_tree:
  "tree_at h par (Some a) t \<Longrightarrow> distinct (nodes_of t) \<Longrightarrow>
   \<exists>h'. propagate_height_down h a = Some h' \<and> same_links h h'
        \<and> (\<forall>b. b \<notin> set (nodes_of t) \<longrightarrow> lookup h' b = lookup h b)
        \<and> lookup h' a = lookup h a"
proof (induction t arbitrary: h par a)
  case Tip
  then show ?case by simp
next
  case (Br l a' r)
  from Br.prems(1) obtain n where n: "a' = a" "lookup h a = Some n"
    "tree_at h (Some a) (left n) l" "tree_at h (Some a) (right n) r"
    by auto
  have d: "distinct (nodes_of l)" "distinct (nodes_of r)" "a \<notin> set (nodes_of l)"
    "a \<notin> set (nodes_of r)" "set (nodes_of l) \<inter> set (nodes_of r) = {}"
    using Br.prems(2) n(1) by auto
  txt \<open>the left child\<close>
  have "\<exists>h2. (case left n of None \<Rightarrow> Some h
         | Some l \<Rightarrow> Option.bind (modify h l (\<lambda>c. c\<lparr>height := height n - 1\<rparr>))
                      (\<lambda>h1. propagate_height_down h1 l)) = Some h2
       \<and> same_links h h2 \<and> (\<forall>b. b \<notin> set (nodes_of l) \<longrightarrow> lookup h2 b = lookup h b)"
  proof (cases l)
    case Tip
    with n(3) show ?thesis by simp
  next
    case (Br ll lc lr)
    with n(3) obtain cn where cn: "left n = Some lc" "lookup h lc = Some cn" by auto
    define h1 where "h1 = h[lc := Some (cn\<lparr>height := height n - 1\<rparr>)]"
    have m: "modify h lc (\<lambda>c. c\<lparr>height := height n - 1\<rparr>) = Some h1"
      using cn by (simp add: modify_def h1_def)
    have sl1: "same_links h h1" using modify_height_links[OF cn(2)] by (simp add: h1_def)
    have lcl: "lc \<in> set (nodes_of l)" using Br by simp
    have fr1: "\<forall>b. b \<noteq> lc \<longrightarrow> lookup h1 b = lookup h b" by (simp add: h1_def)
    have t1: "tree_at h1 (Some a) (Some lc) l"
      using tree_at_same_links[OF sl1 n(3)] cn by simp
    from Br.IH(1)[OF t1 d(1)] obtain h2 where h2: "propagate_height_down h1 lc = Some h2"
      "same_links h1 h2" "\<forall>b. b \<notin> set (nodes_of l) \<longrightarrow> lookup h2 b = lookup h1 b"
      by auto
    have "same_links h h2" using sl1 h2(2) by (rule same_links_trans)
    moreover have "\<forall>b. b \<notin> set (nodes_of l) \<longrightarrow> lookup h2 b = lookup h b"
      using h2(3) fr1 lcl by auto
    ultimately show ?thesis using cn m h2(1) by simp
  qed
  then obtain h2 where h2: "(case left n of None \<Rightarrow> Some h
         | Some l \<Rightarrow> Option.bind (modify h l (\<lambda>c. c\<lparr>height := height n - 1\<rparr>))
                      (\<lambda>h1. propagate_height_down h1 l)) = Some h2"
      "same_links h h2" "\<forall>b. b \<notin> set (nodes_of l) \<longrightarrow> lookup h2 b = lookup h b"
    by blast
  have la2: "lookup h2 a = Some n" using h2(3) d(3) n(2) by simp
  have r2: "tree_at h2 (Some a) (right n) r" using tree_at_same_links[OF h2(2) n(4)] .
  txt \<open>the right child\<close>
  have "\<exists>h4. (case right n of None \<Rightarrow> Some h2
         | Some r \<Rightarrow> Option.bind (modify h2 r (\<lambda>c. c\<lparr>height := height n - 1\<rparr>))
                      (\<lambda>h3. propagate_height_down h3 r)) = Some h4
       \<and> same_links h2 h4 \<and> (\<forall>b. b \<notin> set (nodes_of r) \<longrightarrow> lookup h4 b = lookup h2 b)"
  proof (cases r)
    case Tip
    with r2 show ?thesis by simp
  next
    case (Br rl rc rr)
    with r2 obtain cn where cn: "right n = Some rc" "lookup h2 rc = Some cn" by auto
    define h3 where "h3 = h2[rc := Some (cn\<lparr>height := height n - 1\<rparr>)]"
    have m: "modify h2 rc (\<lambda>c. c\<lparr>height := height n - 1\<rparr>) = Some h3"
      using cn by (simp add: modify_def h3_def)
    have sl3: "same_links h2 h3" using modify_height_links[OF cn(2)] by (simp add: h3_def)
    have rcr: "rc \<in> set (nodes_of r)" using Br by simp
    have fr3: "\<forall>b. b \<noteq> rc \<longrightarrow> lookup h3 b = lookup h2 b" by (simp add: h3_def)
    have t3: "tree_at h3 (Some a) (Some rc) r"
      using tree_at_same_links[OF sl3 r2] cn by simp
    from Br.IH(2)[OF t3 d(2)] obtain h4 where h4: "propagate_height_down h3 rc = Some h4"
      "same_links h3 h4" "\<forall>b. b \<notin> set (nodes_of r) \<longrightarrow> lookup h4 b = lookup h3 b"
      by auto
    have "same_links h2 h4" using sl3 h4(2) by (rule same_links_trans)
    moreover have "\<forall>b. b \<notin> set (nodes_of r) \<longrightarrow> lookup h4 b = lookup h2 b"
      using h4(3) fr3 rcr by auto
    ultimately show ?thesis using cn m h4(1) by simp
  qed
  then obtain h4 where h4: "(case right n of None \<Rightarrow> Some h2
         | Some r \<Rightarrow> Option.bind (modify h2 r (\<lambda>c. c\<lparr>height := height n - 1\<rparr>))
                      (\<lambda>h3. propagate_height_down h3 r)) = Some h4"
      "same_links h2 h4" "\<forall>b. b \<notin> set (nodes_of r) \<longrightarrow> lookup h4 b = lookup h2 b"
    by blast
  have run: "propagate_height_down h a = Some h4"
    by (subst propagate_height_down.simps) (simp add: n(2) h2(1) la2 h4(1))
  have "same_links h h4" using h2(2) h4(2) by (rule same_links_trans)
  moreover have "\<forall>b. b \<notin> set (nodes_of (Br l a' r)) \<longrightarrow> lookup h4 b = lookup h b"
    using h2(3) h4(3) by auto
  moreover have "lookup h4 a = lookup h a" using h2(3) h4(3) d by auto
  ultimately show ?case using run by blast
qed

subsection \<open>The rebalancing walk keeps the tree\<close>

lemma same_kv_refl [simp]: "same_kv h h"
  by (simp add: same_kv_def)

lemma same_kv_trans: "same_kv h h1 \<Longrightarrow> same_kv h1 h2 \<Longrightarrow> same_kv h h2"
  by (simp add: same_kv_def)

lemma same_data_kv: "same_data h h' \<Longrightarrow> same_kv h h'"
  unfolding same_data_def same_kv_def
proof (intro conjI allI)
  assume a: "length h' = length h \<and>
    (\<forall>a. map_option (\<lambda>n. (key n, val n, height n, balance n)) (lookup h' a)
        = map_option (\<lambda>n. (key n, val n, height n, balance n)) (lookup h a))"
  then show "length h' = length h" by simp
  fix b
  from a have "map_option (\<lambda>n. (key n, val n, height n, balance n)) (lookup h' b)
        = map_option (\<lambda>n. (key n, val n, height n, balance n)) (lookup h b)" by simp
  then show "map_option (\<lambda>n. (key n, val n)) (lookup h' b)
        = map_option (\<lambda>n. (key n, val n)) (lookup h b)"
    by (cases "lookup h' b"; cases "lookup h b") auto
qed

lemma same_links_kv: "same_links h h' \<Longrightarrow> same_kv h h'"
  unfolding same_links_def same_kv_def
proof (intro conjI allI)
  assume a: "length h' = length h \<and>
    (\<forall>a. map_option (\<lambda>n. (key n, val n, parent n, left n, right n)) (lookup h' a)
        = map_option (\<lambda>n. (key n, val n, parent n, left n, right n)) (lookup h a))"
  then show "length h' = length h" by simp
  fix b
  from a have "map_option (\<lambda>n. (key n, val n, parent n, left n, right n)) (lookup h' b)
        = map_option (\<lambda>n. (key n, val n, parent n, left n, right n)) (lookup h b)" by simp
  then show "map_option (\<lambda>n. (key n, val n)) (lookup h' b)
        = map_option (\<lambda>n. (key n, val n)) (lookup h b)"
    by (cases "lookup h' b"; cases "lookup h b") auto
qed

lemma tree_at_lookup:
  "tree_at h par p t \<Longrightarrow> a \<in> set (nodes_of t) \<Longrightarrow> \<exists>n. lookup h a = Some n"
  by (induction t arbitrary: par p) auto

lemma fix_right_heavy_tree:
  assumes inv: "tree_at (heap s) None (root s) t" "distinct (nodes_of t)"
    and thn: "this \<in> set (nodes_of t)"
    and prev: "\<forall>p. prev = Some p \<longrightarrow> p \<in> set (nodes_of t) \<and> root s \<noteq> Some p"
    and ins: "ins \<in> set (nodes_of t)"
  shows "case fix_right_heavy s this prev ins of None \<Rightarrow> root s = Some this
         | Some (rot, s') \<Rightarrow> rot \<noteq> NONE \<and> tree_step s (nodes_of t) s'"
proof -
  have "\<exists>h2 t2. (case prev of None \<Rightarrow> Some (heap s)
            | Some p \<Rightarrow> do {
                ins \<leftarrow> lookup (heap s) ins;
                pn \<leftarrow> lookup (heap s) p;
                (if key ins < key pn then rotate_right (heap s) p else Some (heap s))
              }) = Some h2
        \<and> tree_at h2 None (root s) t2 \<and> nodes_of t2 = nodes_of t \<and> same_data (heap s) h2
        \<and> (\<forall>a. a \<notin> set (nodes_of t) \<longrightarrow> lookup h2 a = lookup (heap s) a)"
  proof (cases prev)
    case None
    with inv show ?thesis by auto
  next
    case (Some p)
    from prev Some have p: "p \<in> set (nodes_of t)" "root s \<noteq> Some p" by auto
    from tree_at_lookup[OF inv(1) ins] obtain insn where insn: "lookup (heap s) ins = Some insn"
      by auto
    from tree_at_lookup[OF inv(1) p(1)] obtain pn where pn: "lookup (heap s) p = Some pn"
      by auto
    show ?thesis
    proof (cases "key insn < key pn")
      case True
      from rotate_right_in_tree[OF inv p] obtain h' t' where
        "rotate_right (heap s) p = Some h'" "tree_at h' None (root s) t'"
        "nodes_of t' = nodes_of t" "same_data (heap s) h'"
        "\<forall>a. a \<notin> set (nodes_of t) \<longrightarrow> lookup h' a = lookup (heap s) a"
        by blast
      with Some insn pn True show ?thesis by auto
    next
      case False
      with Some insn pn inv show ?thesis by auto
    qed
  qed
  then obtain h2 t2 where h2: "(case prev of None \<Rightarrow> Some (heap s)
            | Some p \<Rightarrow> do {
                ins \<leftarrow> lookup (heap s) ins;
                pn \<leftarrow> lookup (heap s) p;
                (if key ins < key pn then rotate_right (heap s) p else Some (heap s))
              }) = Some h2"
      and t2: "tree_at h2 None (root s) t2" "nodes_of t2 = nodes_of t"
      and sd2: "same_data (heap s) h2"
      and fr2: "\<forall>a. a \<notin> set (nodes_of t) \<longrightarrow> lookup h2 a = lookup (heap s) a"
    by blast
  have d2: "distinct (nodes_of t2)" using inv(2) t2(2) by simp
  show ?thesis
  proof (cases "root s = Some this")
    case True
    from tree_at_lookup[OF t2(1)] thn t2(2) obtain t2n where t2n: "lookup h2 this = Some t2n"
      by auto
    show ?thesis
    proof (cases "right t2n")
      case None
      have "fix_right_heavy s this prev ins = None"
        unfolding fix_right_heavy_def h2 by (simp add: True t2n None)
      with True show ?thesis by simp
    next
      case (Some r)
      have tr: "tree_at h2 None (Some this) t2" using t2(1) True by simp
      from rotate_left_root[OF tr d2 t2n Some] obtain h0 h' t' where
        r: "modify h2 r (\<lambda>n. n\<lparr>parent := None\<rparr>) = Some h0" "rotate_left h0 this = Some h'"
          "tree_at h' None (Some r) t'" "nodes_of t' = nodes_of t2" "same_data h2 h'"
          "\<forall>a. a \<notin> set (nodes_of t2) \<longrightarrow> lookup h' a = lookup h2 a"
        by blast
      have e: "fix_right_heavy s this prev ins = Some (LEFT, s\<lparr>heap := h', root := Some r\<rparr>)"
        unfolding fix_right_heavy_def h2 by (simp add: True t2n Some r(1,2))
      have "same_kv (heap s) h'"
        using same_data_trans[OF sd2 r(5)] by (rule same_data_kv)
      then have "tree_step s (nodes_of t) (s\<lparr>heap := h', root := Some r\<rparr>)"
        using r(3,4,6) t2(2) fr2 by (auto simp: tree_step_def)
      with e show ?thesis by simp
    qed
  next
    case False
    then have nr: "root s \<noteq> Some this" by simp
    have th: "this \<in> set (nodes_of t2)" using thn t2(2) by simp
    from rotate_left_in_tree[OF t2(1) d2 th nr] obtain h' t' where
      r: "rotate_left h2 this = Some h'" "tree_at h' None (root s) t'"
        "nodes_of t' = nodes_of t2" "same_data h2 h'"
        "\<forall>a. a \<notin> set (nodes_of t2) \<longrightarrow> lookup h' a = lookup h2 a"
      by blast
    have e: "fix_right_heavy s this prev ins = Some (LEFT, s\<lparr>heap := h'\<rparr>)"
      unfolding fix_right_heavy_def h2 by (simp add: False r(1))
    have "same_kv (heap s) h'"
      using same_data_trans[OF sd2 r(4)] by (rule same_data_kv)
    then have "tree_step s (nodes_of t) (s\<lparr>heap := h'\<rparr>)"
      using r(2,3,5) t2(2) fr2 by (auto simp: tree_step_def)
    with e show ?thesis by simp
  qed
qed

lemma fix_left_heavy_tree:
  assumes inv: "tree_at (heap s) None (root s) t" "distinct (nodes_of t)"
    and thn: "this \<in> set (nodes_of t)"
    and prev: "\<forall>p. prev = Some p \<longrightarrow> p \<in> set (nodes_of t) \<and> root s \<noteq> Some p"
    and ins: "ins \<in> set (nodes_of t)"
  shows "case fix_left_heavy s this prev ins of None \<Rightarrow> root s = Some this
         | Some (rot, s') \<Rightarrow> rot \<noteq> NONE \<and> tree_step s (nodes_of t) s'"
proof -
  have "\<exists>h2 t2. (case prev of None \<Rightarrow> Some (heap s)
            | Some p \<Rightarrow> do {
                ins \<leftarrow> lookup (heap s) ins;
                pn \<leftarrow> lookup (heap s) p;
                (if key ins > key pn then rotate_left (heap s) p else Some (heap s))
              }) = Some h2
        \<and> tree_at h2 None (root s) t2 \<and> nodes_of t2 = nodes_of t \<and> same_data (heap s) h2
        \<and> (\<forall>a. a \<notin> set (nodes_of t) \<longrightarrow> lookup h2 a = lookup (heap s) a)"
  proof (cases prev)
    case None
    with inv show ?thesis by auto
  next
    case (Some p)
    from prev Some have p: "p \<in> set (nodes_of t)" "root s \<noteq> Some p" by auto
    from tree_at_lookup[OF inv(1) ins] obtain insn where insn: "lookup (heap s) ins = Some insn"
      by auto
    from tree_at_lookup[OF inv(1) p(1)] obtain pn where pn: "lookup (heap s) p = Some pn"
      by auto
    show ?thesis
    proof (cases "key insn > key pn")
      case True
      from rotate_left_in_tree[OF inv p] obtain h' t' where
        "rotate_left (heap s) p = Some h'" "tree_at h' None (root s) t'"
        "nodes_of t' = nodes_of t" "same_data (heap s) h'"
        "\<forall>a. a \<notin> set (nodes_of t) \<longrightarrow> lookup h' a = lookup (heap s) a"
        by blast
      with Some insn pn True show ?thesis by auto
    next
      case False
      with Some insn pn inv show ?thesis by auto
    qed
  qed
  then obtain h2 t2 where h2: "(case prev of None \<Rightarrow> Some (heap s)
            | Some p \<Rightarrow> do {
                ins \<leftarrow> lookup (heap s) ins;
                pn \<leftarrow> lookup (heap s) p;
                (if key ins > key pn then rotate_left (heap s) p else Some (heap s))
              }) = Some h2"
      and t2: "tree_at h2 None (root s) t2" "nodes_of t2 = nodes_of t"
      and sd2: "same_data (heap s) h2"
      and fr2: "\<forall>a. a \<notin> set (nodes_of t) \<longrightarrow> lookup h2 a = lookup (heap s) a"
    by blast
  have d2: "distinct (nodes_of t2)" using inv(2) t2(2) by simp
  show ?thesis
  proof (cases "root s = Some this")
    case True
    from tree_at_lookup[OF t2(1)] thn t2(2) obtain t2n where t2n: "lookup h2 this = Some t2n"
      by auto
    show ?thesis
    proof (cases "left t2n")
      case None
      have "fix_left_heavy s this prev ins = None"
        unfolding fix_left_heavy_def h2 by (simp add: True t2n None)
      with True show ?thesis by simp
    next
      case (Some r)
      have tr: "tree_at h2 None (Some this) t2" using t2(1) True by simp
      from rotate_right_root[OF tr d2 t2n Some] obtain h0 h' t' where
        r: "modify h2 r (\<lambda>n. n\<lparr>parent := None\<rparr>) = Some h0" "rotate_right h0 this = Some h'"
          "tree_at h' None (Some r) t'" "nodes_of t' = nodes_of t2" "same_data h2 h'"
          "\<forall>a. a \<notin> set (nodes_of t2) \<longrightarrow> lookup h' a = lookup h2 a"
        by blast
      have e: "fix_left_heavy s this prev ins = Some (RIGHT, s\<lparr>heap := h', root := Some r\<rparr>)"
        unfolding fix_left_heavy_def h2 by (simp add: True t2n Some r(1,2))
      have "same_kv (heap s) h'"
        using same_data_trans[OF sd2 r(5)] by (rule same_data_kv)
      then have "tree_step s (nodes_of t) (s\<lparr>heap := h', root := Some r\<rparr>)"
        using r(3,4,6) t2(2) fr2 by (auto simp: tree_step_def)
      with e show ?thesis by simp
    qed
  next
    case False
    then have nr: "root s \<noteq> Some this" by simp
    have th: "this \<in> set (nodes_of t2)" using thn t2(2) by simp
    from rotate_right_in_tree[OF t2(1) d2 th nr] obtain h' t' where
      r: "rotate_right h2 this = Some h'" "tree_at h' None (root s) t'"
        "nodes_of t' = nodes_of t2" "same_data h2 h'"
        "\<forall>a. a \<notin> set (nodes_of t2) \<longrightarrow> lookup h' a = lookup h2 a"
      by blast
    have e: "fix_left_heavy s this prev ins = Some (RIGHT, s\<lparr>heap := h'\<rparr>)"
      unfolding fix_left_heavy_def h2 by (simp add: False r(1))
    have "same_kv (heap s) h'"
      using same_data_trans[OF sd2 r(4)] by (rule same_data_kv)
    then have "tree_step s (nodes_of t) (s\<lparr>heap := h'\<rparr>)"
      using r(2,3,5) t2(2) fr2 by (auto simp: tree_step_def)
    with e show ?thesis by simp
  qed
qed

lemma tree_step_trans: "tree_step s L s1 \<Longrightarrow> tree_step s1 L s2 \<Longrightarrow> tree_step s L s2"
  unfolding tree_step_def using same_kv_trans by fastforce

lemma tree_at_has_parent:
  assumes "tree_at h None r t" "distinct (nodes_of t)" "x \<in> set (nodes_of t)"
    "parent_at h x = Some p"
  shows "p \<in> set (nodes_of t) \<and> r \<noteq> Some x"
  using tree_at_parent[OF assms(1,2,3)] assms(4) by auto

lemma try_fix_balance_tree:
  assumes inv: "tree_at (heap s) None (root s) t" "distinct (nodes_of t)"
    and thn: "this \<in> set (nodes_of t)"
    and prev: "\<forall>p. prev = Some p \<longrightarrow> p \<in> set (nodes_of t) \<and> root s \<noteq> Some p"
    and ins: "ins \<in> set (nodes_of t)"
  shows "case try_fix_balance s this prev ins of None \<Rightarrow> root s = Some this
         | Some (rot, s') \<Rightarrow> tree_step s (nodes_of t) s'"
proof -
  from tree_at_lookup[OF inv(1) thn] obtain tn where tn: "lookup (heap s) this = Some tn"
    by auto
  obtain l r where lr: "sub_of t this = Br l this r" using sub_of_root[OF thn] by auto
  from tree_at_sub[OF inv(1) thn] lr tn have
    c: "tree_at (heap s) (Some this) (left tn) l" "tree_at (heap s) (Some this) (right tn) r"
    by auto
  from child_height_tree[OF c(1)] child_height_tree[OF c(2)] obtain vl vr where
    v: "child_height (heap s) (left tn) = Some vl" "child_height (heap s) (right tn) = Some vr"
    by auto
  define h1 where "h1 = (heap s)[this := Some (tn\<lparr>balance := vr - vl\<rparr>)]"
  have m: "modify (heap s) this (\<lambda>n. n\<lparr>balance := vr - vl\<rparr>) = Some h1"
    using tn by (simp add: modify_def h1_def)
  have sl: "same_links (heap s) h1" using modify_height_links[OF tn] by (simp add: h1_def)
  have fr1: "\<forall>a. a \<noteq> this \<longrightarrow> lookup h1 a = lookup (heap s) a" by (simp add: h1_def)
  define s1 where "s1 = s\<lparr>heap := h1\<rparr>"
  have s1: "heap s1 = h1" "root s1 = root s" "size_field s1 = size_field s"
    by (simp_all add: s1_def)
  have inv1: "tree_at (heap s1) None (root s1) t"
    using tree_at_same_links[OF sl inv(1)] s1 by simp
  have base: "tree_step s (nodes_of t) s1"
    using inv1 same_links_kv[OF sl] s1 fr1 thn by (auto simp: tree_step_def)
  have prev1: "\<forall>p. prev = Some p \<longrightarrow> p \<in> set (nodes_of t) \<and> root s1 \<noteq> Some p"
    using prev s1 by simp
  have e: "try_fix_balance s this prev ins =
     (if vr - vl = 0 then Some (NONE, s1)
      else if vr - vl > 1 then fix_right_heavy s1 this prev ins
      else if vr - vl < - 1 then fix_left_heavy s1 this prev ins
      else Some (NONE, s1))"
    by (simp add: try_fix_balance_def tn v m s1_def)
  have R: "case fix_right_heavy s1 this prev ins of None \<Rightarrow> root s = Some this
         | Some (rot, s') \<Rightarrow> tree_step s (nodes_of t) s'"
    using fix_right_heavy_tree[OF inv1 inv(2) thn prev1 ins] base s1
    by (auto split: option.splits intro: tree_step_trans)
  have L: "case fix_left_heavy s1 this prev ins of None \<Rightarrow> root s = Some this
         | Some (rot, s') \<Rightarrow> tree_step s (nodes_of t) s'"
    using fix_left_heavy_tree[OF inv1 inv(2) thn prev1 ins] base s1
    by (auto split: option.splits intro: tree_step_trans)
  show ?thesis using e R L base by simp
qed

lemma insert_balance_step_tree:
  assumes inv: "tree_at (heap s) None (root s) t" "distinct (nodes_of t)"
    and thn: "this \<in> set (nodes_of t)"
    and prev: "\<forall>p. prev = Some p \<longrightarrow> p \<in> set (nodes_of t) \<and> root s \<noteq> Some p"
    and ins: "ins \<in> set (nodes_of t)"
  shows "case insert_balance_step s this prev ins of None \<Rightarrow> root s = Some this
         | Some (s', nxt) \<Rightarrow> tree_step s (nodes_of t) s'
             \<and> (\<forall>p. nxt = Some p \<longrightarrow> p \<in> set (nodes_of t) \<and> root s' \<noteq> Some this)"
proof -
  from tree_at_sub[OF inv(1) thn] have
    "tree_at (heap s) (parent_at (heap s) this) (Some this) (sub_of t this)" .
  from update_height_tree[OF this] obtain h1 where h1: "update_height (heap s) this = Some h1"
    "same_links (heap s) h1" "\<forall>b. b \<noteq> this \<longrightarrow> lookup h1 b = lookup (heap s) b"
    by blast
  define s1 where "s1 = s\<lparr>heap := h1\<rparr>"
  have s1: "heap s1 = h1" "root s1 = root s" "size_field s1 = size_field s"
    by (simp_all add: s1_def)
  have inv1: "tree_at (heap s1) None (root s1) t"
    using tree_at_same_links[OF h1(2) inv(1)] s1 by simp
  have base: "tree_step s (nodes_of t) s1"
    using inv1 same_links_kv[OF h1(2)] s1 h1(3) thn by (auto simp: tree_step_def)
  have prev1: "\<forall>p. prev = Some p \<longrightarrow> p \<in> set (nodes_of t) \<and> root s1 \<noteq> Some p"
    using prev s1 by simp
  note tf = try_fix_balance_tree[OF inv1 inv(2) thn prev1 ins]
  show ?thesis
  proof (cases "try_fix_balance s1 this prev ins")
    case None
    with tf have "root s = Some this" using s1 by simp
    moreover have "insert_balance_step s this prev ins = None"
      using None h1(1) by (simp add: insert_balance_step_def s1_def)
    ultimately show ?thesis by simp
  next
    case (Some res)
    obtain rot s2 where res: "res = (rot, s2)" by (cases res)
    with Some tf have ts2: "tree_step s1 (nodes_of t) s2" by simp
    then obtain t2 where t2: "tree_at (heap s2) None (root s2) t2" "nodes_of t2 = nodes_of t"
      by (auto simp: tree_step_def)
    have d2: "distinct (nodes_of t2)" and th2: "this \<in> set (nodes_of t2)"
      using inv(2) thn t2(2) by simp_all
    from tree_at_lookup[OF t2(1) th2] obtain t2n where t2n: "lookup (heap s2) this = Some t2n"
      by auto
    have "\<exists>h3. (if rot \<noteq> NONE
            then (case parent t2n of None \<Rightarrow> Some (heap s2)
                  | Some p \<Rightarrow> propagate_height_down (heap s2) p)
            else Some (heap s2)) = Some h3 \<and> same_links (heap s2) h3
          \<and> (\<forall>b. b \<notin> set (nodes_of t) \<longrightarrow> lookup h3 b = lookup (heap s2) b)"
    proof (cases "rot \<noteq> NONE \<and> parent t2n \<noteq> None")
      case True
      then obtain p where p: "parent t2n = Some p" by auto
      then have "parent_at (heap s2) this = Some p" using t2n by (simp add: parent_at_def)
      from tree_at_has_parent[OF t2(1) d2 th2 this] have pin: "p \<in> set (nodes_of t2)" by simp
      from tree_at_sub[OF t2(1) pin] have
        tp: "tree_at (heap s2) (parent_at (heap s2) p) (Some p) (sub_of t2 p)" .
      have dp: "distinct (nodes_of (sub_of t2 p))" using d2 by (rule sub_of_distinct)
      from propagate_tree[OF tp dp] obtain h3 where
        "propagate_height_down (heap s2) p = Some h3" "same_links (heap s2) h3"
        "\<forall>b. b \<notin> set (nodes_of (sub_of t2 p)) \<longrightarrow> lookup h3 b = lookup (heap s2) b"
        by blast
      moreover have "set (nodes_of (sub_of t2 p)) \<subseteq> set (nodes_of t)"
        using sub_of_nodes[of t2 p] t2(2) by simp
      ultimately show ?thesis using True p by auto
    next
      case False
      then show ?thesis by (cases "parent t2n") auto
    qed
    then obtain h3 where h3: "(if rot \<noteq> NONE
            then (case parent t2n of None \<Rightarrow> Some (heap s2)
                  | Some p \<Rightarrow> propagate_height_down (heap s2) p)
            else Some (heap s2)) = Some h3" "same_links (heap s2) h3"
          "\<forall>b. b \<notin> set (nodes_of t) \<longrightarrow> lookup h3 b = lookup (heap s2) b"
      by blast
    from same_links_lookup[OF h3(2) t2n] obtain t3n where
      t3n: "lookup h3 this = Some t3n" "parent t3n = parent t2n" by auto
    define s3 where "s3 = s2\<lparr>heap := h3\<rparr>"
    have s3: "heap s3 = h3" "root s3 = root s2" "size_field s3 = size_field s2"
      by (simp_all add: s3_def)
    have e: "insert_balance_step s this prev ins = Some (s3, parent t3n)"
      using h1(1) Some res t2n h3(1) t3n
      by (simp add: insert_balance_step_def s1_def[symmetric] s3_def)
    have inv3: "tree_at (heap s3) None (root s3) t2"
      using tree_at_same_links[OF h3(2) t2(1)] s3 by simp
    have "tree_step s2 (nodes_of t) s3"
      using inv3 t2(2) same_links_kv[OF h3(2)] s3 h3(3) by (auto simp: tree_step_def)
    with base ts2 have ts: "tree_step s (nodes_of t) s3"
      by (blast intro: tree_step_trans)
    have nx: "\<forall>p. parent t3n = Some p \<longrightarrow> p \<in> set (nodes_of t) \<and> root s3 \<noteq> Some this"
    proof (intro allI impI)
      fix p assume "parent t3n = Some p"
      then have "parent_at (heap s3) this = Some p" using t3n s3 by (simp add: parent_at_def)
      from tree_at_has_parent[OF inv3 d2 th2 this] t2(2)
      show "p \<in> set (nodes_of t) \<and> root s3 \<noteq> Some this" by simp
    qed
    show ?thesis using e ts nx by simp
  qed
qed

lemma insert_balance_tree:
  "insert_balance s0 th0 prev0 ins0 = Some s0' \<Longrightarrow>
   \<forall>t. tree_at (heap s0) None (root s0) t \<longrightarrow> distinct (nodes_of t)
           \<longrightarrow> th0 \<in> set (nodes_of t)
           \<longrightarrow> (\<forall>p. prev0 = Some p \<longrightarrow> p \<in> set (nodes_of t) \<and> root s0 \<noteq> Some p)
           \<longrightarrow> ins0 \<in> set (nodes_of t) \<longrightarrow> tree_step s0 (nodes_of t) s0'"
proof (rule insert_balance.raw_induct[where
      P = "\<lambda>s th prev ins s'. \<forall>t. tree_at (heap s) None (root s) t \<longrightarrow> distinct (nodes_of t)
           \<longrightarrow> th \<in> set (nodes_of t)
           \<longrightarrow> (\<forall>p. prev = Some p \<longrightarrow> p \<in> set (nodes_of t) \<and> root s \<noteq> Some p)
           \<longrightarrow> ins \<in> set (nodes_of t) \<longrightarrow> tree_step s (nodes_of t) s'"
      and s = s0 and this = th0 and previous = prev0 and inserted = ins0 and y = s0'],
    goal_cases)
  case (1 f s th prev ins s')
  show ?case
  proof (intro allI impI)
    fix t
    assume inv: "tree_at (heap s) None (root s) t" "distinct (nodes_of t)"
      and thn: "th \<in> set (nodes_of t)"
      and prev: "\<forall>p. prev = Some p \<longrightarrow> p \<in> set (nodes_of t) \<and> root s \<noteq> Some p"
      and ins: "ins \<in> set (nodes_of t)"
    note st = insert_balance_step_tree[OF inv thn prev ins]
    from "1"(3) obtain s3 nxt where
      step: "insert_balance_step s th prev ins = Some (s3, nxt)"
      and rest: "(case nxt of None \<Rightarrow> Some s3 | Some p \<Rightarrow> f s3 p (Some th) ins) = Some s'"
      by (auto split: option.splits prod.splits)
    from st step have ts: "tree_step s (nodes_of t) s3"
      and nx: "\<forall>p. nxt = Some p \<longrightarrow> p \<in> set (nodes_of t) \<and> root s3 \<noteq> Some th"
      by simp_all
    show "tree_step s (nodes_of t) s'"
    proof (cases nxt)
      case None
      with rest ts show ?thesis by simp
    next
      case (Some p)
      with rest have r: "f s3 p (Some th) ins = Some s'" by simp
      from ts obtain t3 where t3: "tree_at (heap s3) None (root s3) t3" "nodes_of t3 = nodes_of t"
        by (auto simp: tree_step_def)
      have "tree_step s3 (nodes_of t3) s'"
      proof (rule "1"(2)[OF r, rule_format])
        show "tree_at (heap s3) None (root s3) t3" by (fact t3(1))
        show "distinct (nodes_of t3)" using inv(2) t3(2) by simp
        show "p \<in> set (nodes_of t3)" using nx Some t3(2) by simp
        show "ins \<in> set (nodes_of t3)" using ins t3(2) by simp
      next
        fix q assume "Some th = Some q"
        then show "q \<in> set (nodes_of t3) \<and> root s3 \<noteq> Some q"
          using thn nx Some t3(2) by auto
      qed
      with ts t3(2) show ?thesis by (auto intro: tree_step_trans)
    qed
  qed
next
  case 2
  then show ?case by simp
qed

subsection \<open>The descent and the new leaf\<close>

lemma attach_nodes: "set (nodes_of (attach f k new t)) = insert new (set (nodes_of t))"
  by (induction t) auto

lemma attach_distinct:
  "new \<notin> set (nodes_of t) \<Longrightarrow> distinct (nodes_of t) \<Longrightarrow> distinct (nodes_of (attach f k new t))"
  by (induction t) (auto simp: attach_nodes)

lemma attach_sorted:
  "sorted_wrt (<) (map f (nodes_of t)) \<Longrightarrow> k \<notin> f ` set (nodes_of t)
   \<Longrightarrow> g new = k \<Longrightarrow> (\<forall>x \<in> set (nodes_of t). g x = f x)
   \<Longrightarrow> sorted_wrt (<) (map g (nodes_of (attach f k new t)))"
proof (induction t)
  case Tip
  then show ?case by simp
next
  case (Br l a r)
  from Br.prems have s: "sorted_wrt (<) (map f (nodes_of l))" "sorted_wrt (<) (map f (nodes_of r))"
    "\<forall>x \<in> set (nodes_of l). f x < f a" "\<forall>y \<in> set (nodes_of r). f a < f y"
    "\<forall>x \<in> set (nodes_of l). \<forall>y \<in> set (nodes_of r). f x < f y"
    by (auto simp: sorted_wrt_append)
  have ka: "k \<noteq> f a" using Br.prems(2) by auto
  have g: "g a = f a" "\<forall>x \<in> set (nodes_of l). g x = f x" "\<forall>x \<in> set (nodes_of r). g x = f x"
    using Br.prems(4) by auto
  have gl: "map g (nodes_of l) = map f (nodes_of l)" using g by simp
  have gr: "map g (nodes_of r) = map f (nodes_of r)" using g by simp
  show ?case
  proof (cases "k < f a")
    case True
    have IH: "sorted_wrt (<) (map g (nodes_of (attach f k new l)))"
      using Br.IH(1)[OF s(1) _ Br.prems(3) g(2)] Br.prems(2) by auto
    have "\<forall>x \<in> set (nodes_of (attach f k new l)). g x < g a"
      using True s(3) g Br.prems(3) by (auto simp: attach_nodes)
    moreover have "\<forall>x \<in> set (nodes_of (attach f k new l)). \<forall>y \<in> set (nodes_of r). g x < g y"
      using True s(4,5) g Br.prems(3) by (auto simp: attach_nodes)
    moreover have "\<forall>y \<in> set (nodes_of r). g a < g y" using s(4) g by auto
    moreover have "map g (nodes_of (attach f k new (Br l a r)))
        = map g (nodes_of (attach f k new l)) @ g a # map f (nodes_of r)"
      using True gr by simp
    ultimately show ?thesis using IH s(2) g
      by (simp add: sorted_wrt_append)
  next
    case False
    with ka have gt: "f a < k" by simp
    have IH: "sorted_wrt (<) (map g (nodes_of (attach f k new r)))"
      using Br.IH(2)[OF s(2) _ Br.prems(3) g(3)] Br.prems(2) by auto
    have "\<forall>y \<in> set (nodes_of (attach f k new r)). g a < g y"
      using gt s(4) g Br.prems(3) by (auto simp: attach_nodes)
    moreover have "\<forall>x \<in> set (nodes_of l). \<forall>y \<in> set (nodes_of (attach f k new r)). g x < g y"
      using gt s(3,5) g Br.prems(3) by (auto simp: attach_nodes)
    moreover have "\<forall>x \<in> set (nodes_of l). g x < g a" using s(3) g by auto
    moreover have "map g (nodes_of (attach f k new (Br l a r)))
        = map f (nodes_of l) @ g a # map g (nodes_of (attach f k new r))"
      using False gl by simp
    ultimately show ?thesis using IH s(1) g
      by (simp add: sorted_wrt_append)
  qed
qed

lemma lookup_append [simp]:
  "lookup (h @ [x]) b = (if b = length h then x else lookup h b)"
  by (auto simp: lookup_def nth_append)

lemma add_child_new:
  assumes "lookup h a = Some n" "k \<noteq> key n"
  shows "\<exists>h2. add_child (h @ [Some (CreateNode dv k)]) a (length h) = Some h2
          \<and> length h2 = Suc (length h)
          \<and> lookup h2 a = Some (if k < key n then n\<lparr>left := Some (length h)\<rparr>
                                 else n\<lparr>right := Some (length h)\<rparr>)
          \<and> lookup h2 (length h) = Some ((CreateNode dv k)\<lparr>parent := Some a\<rparr>)
          \<and> (\<forall>b. b \<noteq> a \<longrightarrow> b \<noteq> length h \<longrightarrow> lookup h2 b = lookup h b)"
proof -
  have len: "a < length h" using assms(1) by (rule lookup_length)
  then have ne: "a \<noteq> length h" by simp
  show ?thesis
  proof (cases "k < key n")
    case True
    with assms len ne show ?thesis
      by (simp add: add_child_def modify_def CreateNode_def)
  next
    case False
    with assms(2) have "key n < k" by simp
    with assms len ne False show ?thesis
      by (simp add: add_child_def modify_def CreateNode_def)
  qed
qed

lemma index_attach:
  assumes "tree_at h par (Some a) t" "distinct (nodes_of t)"
    "sorted_wrt (<) (map (nkey h) (nodes_of t))"
  shows "(k \<in> nkey h ` set (nodes_of t) \<longrightarrow>
            (\<exists>cur. index_loop h k a = Some (True, cur) \<and> cur \<in> set (nodes_of t)))
       \<and> (k \<notin> nkey h ` set (nodes_of t) \<longrightarrow>
            (\<exists>cur h2. index_loop h k a = Some (False, cur) \<and> attached h dv k par a t cur h2))"
  using assms
proof (induction t arbitrary: par a)
  case Tip
  then show ?case by simp
next
  case (Br l a' r)
  from Br.prems(1) obtain n where n: "a' = a" "lookup h a = Some n" "parent n = par"
    "tree_at h (Some a) (left n) l" "tree_at h (Some a) (right n) r"
    by auto
  have d: "distinct (nodes_of l)" "distinct (nodes_of r)" "a \<notin> set (nodes_of l)"
    "a \<notin> set (nodes_of r)" "set (nodes_of l) \<inter> set (nodes_of r) = {}"
    using Br.prems(2) n(1) by auto
  have nk: "nkey h a = key n" using n by (simp add: nkey_def)
  have srt: "sorted_wrt (<) (map (nkey h) (nodes_of l))"
    "sorted_wrt (<) (map (nkey h) (nodes_of r))"
    "\<forall>x \<in> set (nodes_of l). nkey h x < key n" "\<forall>y \<in> set (nodes_of r). key n < nkey h y"
    using Br.prems(3) n(1) nk by (auto simp: sorted_wrt_append)
  have alen: "a < length h" using n(2) by (rule lookup_length)
  have nlen: "\<forall>b \<in> set (nodes_of l). b \<noteq> length h" "\<forall>b \<in> set (nodes_of r). b \<noteq> length h"
    using tree_at_nodes_length[OF n(4)] tree_at_nodes_length[OF n(5)] by auto
  consider (eq) "k = key n" | (lt) "k < key n" | (gt) "key n < k"
    using less_linear by blast
  then show ?case
  proof cases
    case eq
    have "index_loop h k a = Some (True, a)"
      by (subst index_loop.simps) (simp add: n eq)
    moreover have "k \<in> nkey h ` set (nodes_of (Br l a' r))" using eq nk n(1) by auto
    ultimately show ?thesis using n(1) by auto
  next
    case lt
    have kin: "k \<in> nkey h ` set (nodes_of (Br l a' r)) \<longleftrightarrow> k \<in> nkey h ` set (nodes_of l)"
      using lt srt(4) nk n(1) by auto
    show ?thesis
    proof (cases l)
      case Tip
      with n(4) have ln: "left n = None" by simp
      from lt have kne: "k \<noteq> key n" by simp
      have run: "index_loop h k a = Some (False, a)"
        using lt kne by (subst index_loop.simps) (simp add: n ln)
      from add_child_new[OF n(2) kne, of dv] lt obtain h2 where
        h2: "add_child (h @ [Some (CreateNode dv k)]) a (length h) = Some h2"
          "length h2 = Suc (length h)"
          "lookup h2 a = Some (n\<lparr>left := Some (length h)\<rparr>)"
          "lookup h2 (length h) = Some ((CreateNode dv k)\<lparr>parent := Some a\<rparr>)"
          "\<forall>b. b \<noteq> a \<longrightarrow> b \<noteq> length h \<longrightarrow> lookup h2 b = lookup h b"
        by auto
      have "tree_at h2 (Some a) (right n) r = tree_at h (Some a) (right n) r"
        by (rule tree_at_frame) (use h2(5) d(4) nlen in auto)
      then have tr: "tree_at h2 (Some a) (right n) r" using n(5) by simp
      have ta: "tree_at h2 par (Some a) (attach (nkey h) k (length h) (Br l a' r))"
        using Tip lt nk n(1,3) h2(3,4) tr ln by (simp add: CreateNode_def)
      have "attached h dv k par a (Br l a' r) a h2"
        unfolding attached_def using n(1,2) h2 ta Tip d nlen
        by (auto simp: CreateNode_def)
      with run kin Tip show ?thesis by auto
    next
      case (Br ll lc lr)
      with n(4) have ln: "left n = Some lc" by simp
      have kne: "k \<noteq> key n" using lt by simp
      have run: "index_loop h k a = index_loop h k lc"
        using lt kne by (subst index_loop.simps) (simp add: n ln)
      have tl: "tree_at h (Some a) (Some lc) l" using n(4) ln by simp
      note IH = Br.IH(1)[OF tl d(1) srt(1)]
      show ?thesis
      proof (cases "k \<in> nkey h ` set (nodes_of l)")
        case True
        with IH obtain cur where "index_loop h k lc = Some (True, cur)" "cur \<in> set (nodes_of l)"
          by auto
        with run kin True show ?thesis by auto
      next
        case False
        with IH obtain cur h2 where c: "index_loop h k lc = Some (False, cur)"
          "attached h dv k (Some a) lc l cur h2" by auto
        from c(2) have a2: "cur \<in> set (nodes_of l)"
          "add_child (h @ [Some (CreateNode dv k)]) cur (length h) = Some h2"
          "length h2 = Suc (length h)"
          "tree_at h2 (Some a) (Some lc) (attach (nkey h) k (length h) l)"
          "\<forall>b. b \<notin> set (nodes_of l) \<longrightarrow> b \<noteq> length h \<longrightarrow> lookup h2 b = lookup h b"
          "\<forall>b \<in> set (nodes_of l). map_option (\<lambda>n. (key n, val n, parent n)) (lookup h2 b)
              = map_option (\<lambda>n. (key n, val n, parent n)) (lookup h b)"
          "map_option (\<lambda>n. (key n, val n)) (lookup h2 (length h)) = Some (k, dv)"
          by (simp_all add: attached_def)
        have la: "lookup h2 a = Some n" using a2(5) d(3) alen n(2) by simp
        have "tree_at h2 (Some a) (right n) r = tree_at h (Some a) (right n) r"
          by (rule tree_at_frame) (use a2(5) d(5) nlen in auto)
        then have tr: "tree_at h2 (Some a) (right n) r" using n(5) by simp
        have ta: "tree_at h2 par (Some a) (attach (nkey h) k (length h) (Br l a' r))"
          using lt nk n(1,3) la a2(4) tr ln by simp
        have "attached h dv k par a (Br l a' r) cur h2"
          unfolding attached_def using n(1) a2 ta la n(2) d alen nlen
          by auto
        with run c(1) kin False show ?thesis by auto
      qed
    qed
  next
    case gt
    have kin: "k \<in> nkey h ` set (nodes_of (Br l a' r)) \<longleftrightarrow> k \<in> nkey h ` set (nodes_of r)"
      using gt srt(3) nk n(1) by auto
    have nlt: "\<not> k < key n" "k \<noteq> key n" using gt by auto
    show ?thesis
    proof (cases r)
      case Tip
      with n(5) have rn: "right n = None" by simp
      have run: "index_loop h k a = Some (False, a)"
        using gt nlt by (subst index_loop.simps) (simp add: n rn)
      from add_child_new[OF n(2) nlt(2), of dv] nlt obtain h2 where
        h2: "add_child (h @ [Some (CreateNode dv k)]) a (length h) = Some h2"
          "length h2 = Suc (length h)"
          "lookup h2 a = Some (n\<lparr>right := Some (length h)\<rparr>)"
          "lookup h2 (length h) = Some ((CreateNode dv k)\<lparr>parent := Some a\<rparr>)"
          "\<forall>b. b \<noteq> a \<longrightarrow> b \<noteq> length h \<longrightarrow> lookup h2 b = lookup h b"
        by auto
      have "tree_at h2 (Some a) (left n) l = tree_at h (Some a) (left n) l"
        by (rule tree_at_frame) (use h2(5) d(3) nlen in auto)
      then have tl: "tree_at h2 (Some a) (left n) l" using n(4) by simp
      have ta: "tree_at h2 par (Some a) (attach (nkey h) k (length h) (Br l a' r))"
        using Tip nlt nk n(1,3) h2(3,4) tl rn by (simp add: CreateNode_def)
      have "attached h dv k par a (Br l a' r) a h2"
        unfolding attached_def using n(1,2) h2 ta Tip d nlen
        by (auto simp: CreateNode_def)
      with run kin Tip show ?thesis by auto
    next
      case (Br rl rc rr)
      with n(5) have rn: "right n = Some rc" by simp
      have run: "index_loop h k a = index_loop h k rc"
        using gt nlt by (subst index_loop.simps) (simp add: n rn)
      have tr: "tree_at h (Some a) (Some rc) r" using n(5) rn by simp
      note IH = Br.IH(2)[OF tr d(2) srt(2)]
      show ?thesis
      proof (cases "k \<in> nkey h ` set (nodes_of r)")
        case True
        with IH obtain cur where "index_loop h k rc = Some (True, cur)" "cur \<in> set (nodes_of r)"
          by auto
        with run kin True show ?thesis by auto
      next
        case False
        with IH obtain cur h2 where c: "index_loop h k rc = Some (False, cur)"
          "attached h dv k (Some a) rc r cur h2" by auto
        from c(2) have a2: "cur \<in> set (nodes_of r)"
          "add_child (h @ [Some (CreateNode dv k)]) cur (length h) = Some h2"
          "length h2 = Suc (length h)"
          "tree_at h2 (Some a) (Some rc) (attach (nkey h) k (length h) r)"
          "\<forall>b. b \<notin> set (nodes_of r) \<longrightarrow> b \<noteq> length h \<longrightarrow> lookup h2 b = lookup h b"
          "\<forall>b \<in> set (nodes_of r). map_option (\<lambda>n. (key n, val n, parent n)) (lookup h2 b)
              = map_option (\<lambda>n. (key n, val n, parent n)) (lookup h b)"
          "map_option (\<lambda>n. (key n, val n)) (lookup h2 (length h)) = Some (k, dv)"
          by (simp_all add: attached_def)
        have la: "lookup h2 a = Some n" using a2(5) d(4) alen n(2) by simp
        have "tree_at h2 (Some a) (left n) l = tree_at h (Some a) (left n) l"
          by (rule tree_at_frame) (use a2(5) d(5) nlen in auto)
        then have tl: "tree_at h2 (Some a) (left n) l" using n(4) by simp
        have ta: "tree_at h2 par (Some a) (attach (nkey h) k (length h) (Br l a' r))"
          using nlt nk n(1,3) la a2(4) tl rn by simp
        have "attached h dv k par a (Br l a' r) cur h2"
          unfolding attached_def using n(1) a2 ta la n(2) d alen nlen
          by auto
        with run c(1) kin False show ?thesis by auto
      qed
    qed
  qed
qed

subsection \<open>The search-tree invariant of one map\<close>

lemma same_kv_nkey: "same_kv h h' \<Longrightarrow> nkey h' a = nkey h a"
proof -
  assume "same_kv h h'"
  then have e: "map_option (\<lambda>n. (key n, val n)) (lookup h' a)
           = map_option (\<lambda>n. (key n, val n)) (lookup h a)"
    by (simp add: same_kv_def)
  show ?thesis
  proof (cases "lookup h a")
    case None
    with e show ?thesis by (simp add: nkey_def)
  next
    case (Some n)
    with e show ?thesis by (auto simp: nkey_def)
  qed
qed

lemma indexer_bst:
  assumes inv: "bst_tree (heap s) (root s) t"
    and run: "indexer dv s k = Some (s', a)"
  shows "\<exists>t'. bst_tree (heap s') (root s') t' \<and> a \<in> set (nodes_of t')
             \<and> op_frame (heap s) t (heap s') t'"
proof (cases "root s")
  case None
  with inv have t: "t = Tip" by (cases t) (auto simp: bst_tree_def)
  from run None have s': "s' = s\<lparr>heap := heap s @ [Some (CreateNode dv k)],
      root := Some (length (heap s)), size_field := size_field s + 1\<rparr>" "a = length (heap s)"
    by (auto simp: indexer_def new_node_def)
  have "bst_tree (heap s') (root s') (Br Tip (length (heap s)) Tip)"
    by (simp add: s' bst_tree_def CreateNode_def)
  moreover have "op_frame (heap s) t (heap s') (Br Tip (length (heap s)) Tip)"
    by (simp add: s' op_frame_def t)
  ultimately show ?thesis using s'(2) by (intro exI[of _ "Br Tip (length (heap s)) Tip"]) simp
next
  case (Some r)
  define h where "h = heap s"
  from inv Some have tr: "tree_at h None (Some r) t" and di: "distinct (nodes_of t)"
    and so: "sorted_wrt (<) (map (nkey h) (nodes_of t))"
    by (simp_all add: bst_tree_def h_def)
  note ia = index_attach[OF tr di so, of k dv]
  show ?thesis
  proof (cases "k \<in> nkey h ` set (nodes_of t)")
    case True
    with ia obtain cur where c: "index_loop h k r = Some (True, cur)" "cur \<in> set (nodes_of t)"
      by auto
    with run Some have "s' = s" "a = cur" by (auto simp: indexer_def h_def)
    with inv c(2) show ?thesis by (intro exI[of _ t]) (simp add: op_frame_def)
  next
    case False
    with ia obtain cur h2 where c: "index_loop h k r = Some (False, cur)"
      "attached h dv k None r t cur h2" by auto
    define tA where "tA = attach (nkey h) k (length h) t"
    from c(2) have a2: "cur \<in> set (nodes_of t)"
      "add_child (h @ [Some (CreateNode dv k)]) cur (length h) = Some h2"
      "length h2 = Suc (length h)"
      "tree_at h2 None (Some r) tA"
      "\<forall>b. b \<notin> set (nodes_of t) \<longrightarrow> b \<noteq> length h \<longrightarrow> lookup h2 b = lookup h b"
      "\<forall>b \<in> set (nodes_of t). map_option (\<lambda>n. (key n, val n, parent n)) (lookup h2 b)
          = map_option (\<lambda>n. (key n, val n, parent n)) (lookup h b)"
      "map_option (\<lambda>n. (key n, val n)) (lookup h2 (length h)) = Some (k, dv)"
      by (simp_all add: attached_def tA_def)
    from run Some c(1) a2(2) obtain s3 where
      s3: "insert_balance (s\<lparr>heap := h2\<rparr>) (length h) None (length h) = Some s3"
      and s': "s' = s3\<lparr>size_field := size_field s3 + 1\<rparr>" "a = length h"
      by (auto simp: indexer_def h_def new_node_def bind_eq_Some_conv)
    have fresh: "length h \<notin> set (nodes_of t)"
      using tree_at_nodes_length[OF tr, of "length h"] by auto
    have dA: "distinct (nodes_of tA)" unfolding tA_def using fresh di by (rule attach_distinct)
    have nA: "set (nodes_of tA) = insert (length h) (set (nodes_of t))"
      by (simp add: tA_def attach_nodes)
    have "tree_step (s\<lparr>heap := h2\<rparr>) (nodes_of tA) s3"
      using insert_balance_tree[OF s3, rule_format, of tA] a2(4) dA Some nA by simp
    then obtain t' where t': "tree_at (heap s3) None (root s3) t'" "nodes_of t' = nodes_of tA"
      and kv: "same_kv h2 (heap s3)"
      and fr: "\<forall>b. b \<notin> set (nodes_of tA) \<longrightarrow> lookup (heap s3) b = lookup h2 b"
      by (auto simp: tree_step_def)
    have g1: "nkey h2 (length h) = k" using a2(7) by (auto simp: nkey_def)
    have g2: "\<forall>x \<in> set (nodes_of t). nkey h2 x = nkey h x"
    proof
      fix x assume "x \<in> set (nodes_of t)"
      with a2(6) have e: "map_option (\<lambda>n. (key n, val n, parent n)) (lookup h2 x)
          = map_option (\<lambda>n. (key n, val n, parent n)) (lookup h x)" by simp
      show "nkey h2 x = nkey h x"
      proof (cases "lookup h x")
        case None
        with e show ?thesis by (simp add: nkey_def)
      next
        case (Some n)
        with e show ?thesis by (auto simp: nkey_def)
      qed
    qed
    have "sorted_wrt (<) (map (nkey h2) (nodes_of tA))"
      unfolding tA_def using so False g1 g2 by (rule attach_sorted)
    moreover have "nkey (heap s3) = nkey h2"
      using same_kv_nkey[OF kv] by (intro ext) simp
    ultimately have so3: "sorted_wrt (<) (map (nkey (heap s3)) (nodes_of t'))"
      using t'(2) by simp
    have b1: "bst_tree (heap s') (root s') t'"
      using t' dA so3 by (simp add: bst_tree_def s')
    have len3: "length (heap s3) = Suc (length h)" using kv a2(3) by (simp add: same_kv_def)
    have b2: "op_frame (heap s) t (heap s') t'"
      unfolding op_frame_def using len3 t'(2) nA fr a2(5) by (auto simp: s' h_def)
    from b1 b2 t'(2) nA s'(2) show ?thesis by (intro exI[of _ t']) simp
  qed
qed

subsection \<open>Changes that keep links and keys\<close>

lemma same_kl_tree: "same_kl h h' \<Longrightarrow> tree_at h par p t \<Longrightarrow> tree_at h' par p t"
proof (induction t arbitrary: par p)
  case Tip
  then show ?case by simp
next
  case (Br l a r)
  from Br.prems(2) obtain n where n: "p = Some a" "lookup h a = Some n" "parent n = par"
    "tree_at h (Some a) (left n) l" "tree_at h (Some a) (right n) r" by auto
  from Br.prems(1) have "map_option (\<lambda>n. (key n, parent n, left n, right n)) (lookup h' a)
           = map_option (\<lambda>n. (key n, parent n, left n, right n)) (lookup h a)"
    by (simp add: same_kl_def)
  with n(2) obtain n' where n': "lookup h' a = Some n'" "parent n' = parent n"
    "left n' = left n" "right n' = right n" by auto
  from Br.IH(1)[OF Br.prems(1) n(4)] Br.IH(2)[OF Br.prems(1) n(5)] n n'
  show ?case by simp
qed

lemma same_kl_nkey: "same_kl h h' \<Longrightarrow> nkey h' a = nkey h a"
proof -
  assume "same_kl h h'"
  then have e: "map_option (\<lambda>n. (key n, parent n, left n, right n)) (lookup h' a)
           = map_option (\<lambda>n. (key n, parent n, left n, right n)) (lookup h a)"
    by (simp add: same_kl_def)
  show ?thesis
  proof (cases "lookup h a")
    case None
    with e show ?thesis by (simp add: nkey_def)
  next
    case (Some n)
    with e show ?thesis by (auto simp: nkey_def)
  qed
qed

lemma same_kl_bst: "same_kl h h' \<Longrightarrow> bst_tree h r t \<Longrightarrow> bst_tree h' r t"
proof -
  assume a: "same_kl h h'" "bst_tree h r t"
  have "nkey h' = nkey h" using same_kl_nkey[OF a(1)] by (intro ext) simp
  with a same_kl_tree[OF a(1)] show ?thesis by (simp add: bst_tree_def)
qed

lemma assign_same_kl:
  "modify h a (\<lambda>n. n\<lparr>val := v\<rparr>) = Some h2 \<Longrightarrow> same_kl h h2"
  by (auto simp: modify_def same_kl_def split: option.splits)

subsection \<open>Erasing a node\<close>

lemma unlink_lookup:
  assumes n: "lookup h nd = Some n"
    and par: "parent n = None \<or> (\<exists>pa pn. parent n = Some pa \<and> pa \<noteq> nd \<and> lookup h pa = Some pn)"
    and q: "q \<noteq> Some nd"
  shows "\<exists>h1. unlink_from_parent h nd (parent n) q = Some h1 \<and> length h1 = length h
          \<and> (\<forall>b. lookup h1 b = (if Some b = parent n then map_option (repl nd q) (lookup h b)
                                 else lookup h b))"
proof (cases "parent n")
  case None
  with n show ?thesis
    by (simp add: unlink_from_parent_def is_left_child_def is_right_child_def)
next
  case (Some pa)
  with par obtain pn where pn: "pa \<noteq> nd" "lookup h pa = Some pn" by auto
  have len: "pa < length h" using pn(2) by (rule lookup_length)
  show ?thesis
  proof (cases "left pn = Some nd")
    case True
    have l1: "is_left_child h nd = Some True"
      using n Some pn True by (simp add: is_left_child_def)
    define h1 where "h1 = h[pa := Some (pn\<lparr>left := q\<rparr>)]"
    have s1: "set_parent_left h (parent n) q = Some h1"
      using Some pn by (simp add: set_parent_left_def modify_def h1_def)
    have lk1: "lookup h1 nd = Some n" "lookup h1 pa = Some (pn\<lparr>left := q\<rparr>)"
      using pn n len by (simp_all add: h1_def)
    have r1: "is_right_child h1 nd = Some (right pn = Some nd)"
      using lk1 Some by (simp add: is_right_child_def)
    show ?thesis
    proof (cases "right pn = Some nd")
      case T2: True
      have "unlink_from_parent h nd (parent n) q = Some (h1[pa := Some (pn\<lparr>left := q, right := q\<rparr>)])"
        using l1 s1 r1 T2 lk1 Some
        by (simp add: unlink_from_parent_def set_parent_right_def modify_def)
      then show ?thesis using Some pn len True T2
        by (auto simp: h1_def repl_def)
    next
      case F2: False
      have "unlink_from_parent h nd (parent n) q = Some h1"
        using l1 s1 r1 F2 by (simp add: unlink_from_parent_def)
      then show ?thesis using Some pn len True F2
        by (auto simp: h1_def repl_def)
    qed
  next
    case False
    have l1: "is_left_child h nd = Some False"
      using n Some pn False by (simp add: is_left_child_def)
    have r1: "is_right_child h nd = Some (right pn = Some nd)"
      using n pn Some by (simp add: is_right_child_def)
    show ?thesis
    proof (cases "right pn = Some nd")
      case T2: True
      have "unlink_from_parent h nd (parent n) q = Some (h[pa := Some (pn\<lparr>right := q\<rparr>)])"
        using l1 r1 T2 pn Some
        by (simp add: unlink_from_parent_def set_parent_right_def modify_def)
      then show ?thesis using Some pn len False T2
        by (auto simp: repl_def)
    next
      case F2: False
      have "unlink_from_parent h nd (parent n) q = Some h"
        using l1 r1 F2 by (simp add: unlink_from_parent_def)
      then show ?thesis using Some pn len False F2
        by (auto simp: repl_def)
    qed
  qed
qed

lemma erase_simple_run:
  assumes n: "lookup (heap s) nd = Some n" and one: "left n = None \<or> right n = None"
    and par: "parent n = None \<or>
              (\<exists>pa pn. parent n = Some pa \<and> pa \<noteq> nd \<and> lookup (heap s) pa = Some pn)"
    and ch: "\<forall>c. q = Some c \<longrightarrow> c \<noteq> nd \<and> Some c \<noteq> parent n \<and> (\<exists>cn. lookup (heap s) c = Some cn)"
    and q: "q = (if left n = None then right n else left n)"
  shows "\<exists>s'. erase s (Some nd) = Some s'
          \<and> root s' = (if root s = Some nd then q else root s)
          \<and> size_field s' = size_field s - 1
          \<and> length (heap s') = length (heap s)
          \<and> (\<forall>b. lookup (heap s') b =
                  (if b = nd then None
                   else if Some b = q then map_option (\<lambda>c. c\<lparr>parent := parent n\<rparr>) (lookup (heap s) b)
                   else if Some b = parent n then map_option (repl nd q) (lookup (heap s) b)
                   else lookup (heap s) b))"
proof -
  from ch have qn: "q \<noteq> Some nd" by auto
  from unlink_lookup[OF n par qn] obtain h1 where
    h1: "unlink_from_parent (heap s) nd (parent n) q = Some h1" "length h1 = length (heap s)"
      "\<forall>b. lookup h1 b = (if Some b = parent n then map_option (repl nd q) (lookup (heap s) b)
                                 else lookup (heap s) b)"
    by blast
  have ndlen: "nd < length (heap s)" using n by (rule lookup_length)
  have pnd: "Some nd \<noteq> parent n" using par by auto
  have l1: "lookup h1 nd = Some n" using h1(3) pnd n by simp
  show ?thesis
  proof (cases q)
    case None
    with q one have nc: "left n = None" "right n = None" by (auto split: if_splits)
    have "erase s (Some nd) = Some (s\<lparr>heap := h1[nd := None],
                            root := (if root s = Some nd then None else root s),
                            size_field := size_field s - 1\<rparr>)"
      using n nc h1(1) None l1
      by (subst erase.simps) (simp add: end_it_def has_children_def delete_node_def)
    then show ?thesis using None h1(2,3) ndlen
      by (intro exI[of _ "s\<lparr>heap := h1[nd := None],
                            root := (if root s = Some nd then None else root s),
                            size_field := size_field s - 1\<rparr>"]) auto
  next
    case (Some c)
    with ch obtain cn where c: "c \<noteq> nd" "Some c \<noteq> parent n" "lookup (heap s) c = Some cn"
      by auto
    have hc: "has_children n" "get_only_child n = Some c"
      using Some q one by (auto simp: has_children_def get_only_child_def split: if_splits)
    have clen: "c < length (heap s)" using c(3) by (rule lookup_length)
    have l1c: "lookup h1 c = Some cn" using h1(3) c by simp
    define h3 where "h3 = h1[c := Some (cn\<lparr>parent := parent n\<rparr>)]"
    have m3: "modify h1 c (\<lambda>c. c\<lparr>parent := parent n\<rparr>) = Some h3"
      using l1c by (simp add: modify_def h3_def)
    have l3: "lookup h3 nd = Some n" using l1 c(1) by (simp add: h3_def)
    have d4: "delete_node h3 nd = Some (h3[nd := None])" using l3 by (simp add: delete_node_def)
    have "erase s (Some nd) = Some (s\<lparr>heap := h3[nd := None],
                            root := (if root s = Some nd then Some c else root s),
                            size_field := size_field s - 1\<rparr>)"
      using n hc h1(1) Some m3 d4
      by (subst erase.simps) (simp add: end_it_def)
    moreover have "\<forall>b. lookup (h3[nd := None]) b =
                  (if b = nd then None
                   else if Some b = q then map_option (\<lambda>c. c\<lparr>parent := parent n\<rparr>) (lookup (heap s) b)
                   else if Some b = parent n then map_option (repl nd q) (lookup (heap s) b)
                   else lookup (heap s) b)"
      using Some h1(2,3) ndlen clen c by (auto simp: h3_def)
    ultimately show ?thesis using Some h1(2)
      by (intro exI[of _ "s\<lparr>heap := h3[nd := None],
                            root := (if root s = Some nd then Some c else root s),
                            size_field := size_field s - 1\<rparr>"]) (simp add: h3_def)
  qed
qed

lemma last_node_tree:
  "tree_at h par (Some a) t \<Longrightarrow>
   \<exists>pn. last_node h a = Some (last (nodes_of t)) \<and> lookup h (last (nodes_of t)) = Some pn
        \<and> right pn = None"
proof (induction t arbitrary: par a)
  case Tip
  then show ?case by simp
next
  case (Br l a' r)
  from Br.prems obtain n where n: "a' = a" "lookup h a = Some n"
    "tree_at h (Some a) (right n) r" by auto
  show ?case
  proof (cases r)
    case Tip
    with n(3) have rn: "right n = None" by simp
    have "last_node h a = Some a" by (subst last_node.simps) (simp add: n rn)
    with n rn Tip show ?thesis by simp
  next
    case (Br rl rc rr)
    with n(3) have rn: "right n = Some rc" by simp
    have run: "last_node h a = last_node h rc" by (subst last_node.simps) (simp add: n rn)
    have "tree_at h (Some a) (Some rc) r" using n(3) rn by simp
    from Br.IH(2)[OF this] run Br show ?thesis by simp
  qed
qed

lemma links_tree:
  assumes "\<forall>a. map_option (\<lambda>n. (parent n, left n, right n)) (lookup h' a)
           = map_option (\<lambda>n. (parent n, left n, right n)) (lookup h a)"
  shows "tree_at h par p t \<Longrightarrow> tree_at h' par p t"
proof (induction t arbitrary: par p)
  case Tip
  then show ?case by simp
next
  case (Br l a r)
  from Br.prems obtain n where n: "p = Some a" "lookup h a = Some n" "parent n = par"
    "tree_at h (Some a) (left n) l" "tree_at h (Some a) (right n) r" by auto
  from assms have "map_option (\<lambda>n. (parent n, left n, right n)) (lookup h' a)
           = map_option (\<lambda>n. (parent n, left n, right n)) (lookup h a)"
    by simp
  with n(2) obtain n' where n': "lookup h' a = Some n'" "parent n' = parent n"
    "left n' = left n" "right n' = right n" by auto
  from Br.IH(1)[OF n(4)] Br.IH(2)[OF n(5)] n n'
  show ?case by simp
qed

lemma kv_nkey:
  "map_option (\<lambda>n. (key n, val n)) (lookup h' b) = map_option (\<lambda>n. (key n, val n)) (lookup h b)
   \<Longrightarrow> nkey h' b = nkey h b"
  by (cases "lookup h b"; cases "lookup h' b") (auto simp: nkey_def)

lemma reparent:
  assumes "tree_at h par0 q u"
    and "\<forall>b \<in> set (nodes_of u). Some b \<noteq> q \<longrightarrow> lookup h' b = lookup h b"
    and "\<forall>c cn. q = Some c \<longrightarrow> lookup h c = Some cn \<longrightarrow> lookup h' c = Some (cn\<lparr>parent := par1\<rparr>)"
    and "distinct (nodes_of u)"
  shows "tree_at h' par1 q u"
proof (cases u)
  case Tip
  with assms(1) show ?thesis by simp
next
  case (Br cl c cr)
  with assms(1) obtain cn where cn: "q = Some c" "lookup h c = Some cn"
    "tree_at h (Some c) (left cn) cl" "tree_at h (Some c) (right cn) cr" by auto
  from assms(3) cn have l': "lookup h' c = Some (cn\<lparr>parent := par1\<rparr>)" by simp
  have "tree_at h' (Some c) (left cn) cl = tree_at h (Some c) (left cn) cl"
    by (rule tree_at_frame) (use assms(2,4) Br cn(1) in auto)
  moreover have "tree_at h' (Some c) (right cn) cr = tree_at h (Some c) (right cn) cr"
    by (rule tree_at_frame) (use assms(2,4) Br cn(1) in auto)
  ultimately show ?thesis using Br cn l' by simp
qed

lemma erase_simple:
  assumes tr: "tree_at (heap s) None (root s) t" and di: "distinct (nodes_of t)"
    and nd: "nd \<in> set (nodes_of t)" and n: "lookup (heap s) nd = Some n"
    and one: "left n = None \<or> right n = None"
  shows "\<exists>s' t'. erase s (Some nd) = Some s' \<and> tree_at (heap s') None (root s') t'
        \<and> nodes_of t' = filter (\<lambda>b. b \<noteq> nd) (nodes_of t)
        \<and> length (heap s') = length (heap s)
        \<and> size_field s' = size_field s - 1
        \<and> (\<forall>b. b \<noteq> nd \<longrightarrow> map_option (\<lambda>n. (key n, val n)) (lookup (heap s') b)
                           = map_option (\<lambda>n. (key n, val n)) (lookup (heap s) b))
        \<and> (\<forall>b. b \<notin> set (nodes_of t) \<longrightarrow> lookup (heap s') b = lookup (heap s) b)
        \<and> lookup (heap s') nd = None"
proof -
  from sub_of_root[OF nd] obtain l r where sub: "sub_of t nd = Br l nd r" by blast
  from tree_at_sub[OF tr nd] sub
  have "tree_at (heap s) (parent_at (heap s) nd) (Some nd) (Br l nd r)" by simp
  with n have pa_eq: "parent_at (heap s) nd = parent n"
    and tl: "tree_at (heap s) (Some nd) (left n) l"
    and trr: "tree_at (heap s) (Some nd) (right n) r"
    by (auto simp: parent_at_def)
  have dsub: "distinct (nodes_of l @ nd # nodes_of r)"
    using sub_of_distinct[OF di, of nd] sub by simp
  have ssub: "set (nodes_of (sub_of t nd)) \<subseteq> set (nodes_of t)" by (rule sub_of_nodes)
  define q where "q = (if left n = None then right n else left n)"
  define u where "u = (if left n = None then r else l)"
  have tu: "tree_at (heap s) (Some nd) q u" using tl trr by (simp add: q_def u_def)
  have lT: "left n = None \<Longrightarrow> l = Tip" using tl by (cases l) auto
  have rT: "left n \<noteq> None \<Longrightarrow> r = Tip" using one trr by (cases r) auto
  have nsub: "nodes_of (sub_of t nd) = (if left n = None then nd # nodes_of u else nodes_of u @ [nd])"
    using sub lT rT by (auto simp: u_def)
  have du: "distinct (nodes_of u)" "nd \<notin> set (nodes_of u)"
    using dsub by (auto simp: u_def)
  have usub: "set (nodes_of u) \<subseteq> set (nodes_of (sub_of t nd))" using nsub by auto
  have ndsub: "nd \<in> set (nodes_of (sub_of t nd))" using nsub by auto
  from tree_at_parent[OF tr di nd] pa_eq
  have pr: "(root s = Some nd \<and> parent n = None) \<or>
    (root s \<noteq> Some nd \<and> (\<exists>pa pn. parent n = Some pa \<and> pa \<in> set (nodes_of t)
       \<and> pa \<notin> set (nodes_of (sub_of t nd)) \<and> lookup (heap s) pa = Some pn))"
    by auto
  have pout: "\<forall>pa. parent n = Some pa \<longrightarrow> pa \<in> set (nodes_of t) \<and> pa \<notin> set (nodes_of (sub_of t nd))"
    using pr by auto
  have par: "parent n = None \<or>
              (\<exists>pa pn. parent n = Some pa \<and> pa \<noteq> nd \<and> lookup (heap s) pa = Some pn)"
    using pr ndsub by auto
  have qin: "\<forall>c. q = Some c \<longrightarrow> c \<in> set (nodes_of u)"
    using tu by (auto dest: tree_at_root_in)
  have ch: "\<forall>c. q = Some c \<longrightarrow> c \<noteq> nd \<and> Some c \<noteq> parent n \<and> (\<exists>cn. lookup (heap s) c = Some cn)"
  proof (intro allI impI)
    fix c assume qc: "q = Some c"
    with qin have cu: "c \<in> set (nodes_of u)" by simp
    from tree_at_lookup[OF tu cu] cu du(2) usub pout
    show "c \<noteq> nd \<and> Some c \<noteq> parent n \<and> (\<exists>cn. lookup (heap s) c = Some cn)" by auto
  qed
  from erase_simple_run[OF n one par ch q_def] obtain s' where
    s': "erase s (Some nd) = Some s'"
      "root s' = (if root s = Some nd then q else root s)"
      "size_field s' = size_field s - 1"
      "length (heap s') = length (heap s)"
      "\<forall>b. lookup (heap s') b =
                  (if b = nd then None
                   else if Some b = q then map_option (\<lambda>c. c\<lparr>parent := parent n\<rparr>) (lookup (heap s) b)
                   else if Some b = parent n then map_option (repl nd q) (lookup (heap s) b)
                   else lookup (heap s) b)"
    by blast
  have sub': "tree_at (heap s') (parent_at (heap s) nd) q u"
    unfolding pa_eq
  proof (rule reparent[OF tu _ _ du(1)])
    show "\<forall>b\<in>set (nodes_of u). Some b \<noteq> q \<longrightarrow> lookup (heap s') b = lookup (heap s) b"
      using s'(5) du(2) usub pout by auto
    show "\<forall>c cn. q = Some c \<longrightarrow> lookup (heap s) c = Some cn \<longrightarrow>
       lookup (heap s') c = Some (cn\<lparr>parent := parent n\<rparr>)"
      using s'(5) ch by auto
  qed
  have "tree_at (heap s') None (if root s = Some nd then q else root s) (subst_at t nd u)"
  proof (rule surgery[OF tr di nd sub'])
    fix a assume "a \<in> set (nodes_of t)" "a \<notin> set (nodes_of (sub_of t nd))"
      "Some a \<noteq> parent_at (heap s) nd"
    then show "lookup (heap s') a = lookup (heap s) a"
      using s'(5) ndsub qin usub pa_eq by auto
  next
    fix pa pn assume "parent_at (heap s) nd = Some pa" "pa \<in> set (nodes_of t)"
      "lookup (heap s) pa = Some pn"
    then show "lookup (heap s') pa = Some (repl nd q pn)"
      using s'(5) ndsub qin usub pa_eq pout by auto
  qed
  then have t1: "tree_at (heap s') None (root s') (subst_at t nd u)" using s'(2) by simp
  from subst_at_nodes[OF di nd, of u] obtain pre post where
    pp: "nodes_of t = pre @ nodes_of (sub_of t nd) @ post"
      "nodes_of (subst_at t nd u) = pre @ nodes_of u @ post" by blast
  have "nd \<notin> set pre" "nd \<notin> set post" using di pp(1) nsub by (auto split: if_splits)
  then have fl: "filter (\<lambda>b. b \<noteq> nd) pre = pre" "filter (\<lambda>b. b \<noteq> nd) post = post"
    "filter (\<lambda>b. b \<noteq> nd) (nodes_of u) = nodes_of u"
    using du(2) by (auto simp: filter_id_conv)
  have t2: "nodes_of (subst_at t nd u) = filter (\<lambda>b. b \<noteq> nd) (nodes_of t)"
    using pp nsub fl by simp
  have t3: "\<forall>b. b \<noteq> nd \<longrightarrow> map_option (\<lambda>n. (key n, val n)) (lookup (heap s') b)
                           = map_option (\<lambda>n. (key n, val n)) (lookup (heap s) b)"
  proof (intro allI impI)
    fix b assume "b \<noteq> nd"
    then show "map_option (\<lambda>n. (key n, val n)) (lookup (heap s') b)
                           = map_option (\<lambda>n. (key n, val n)) (lookup (heap s) b)"
      using s'(5) by (cases "lookup (heap s) b") (auto simp: repl_def)
  qed
  have t4: "\<forall>b. b \<notin> set (nodes_of t) \<longrightarrow> lookup (heap s') b = lookup (heap s) b"
    using s'(5) nd qin usub ssub pout by auto
  have t5: "lookup (heap s') nd = None" using s'(5) by simp
  from s'(1,3,4) t1 t2 t3 t4 t5 show ?thesis by blast
qed

lemma sorted_drop_shift:
  assumes "distinct (A @ p # x # B)" "sorted_wrt (<) (map f (A @ p # x # B))"
    "g x = f p" "\<forall>b. b \<noteq> x \<longrightarrow> b \<noteq> p \<longrightarrow> g b = f b"
  shows "sorted_wrt (<) (map g (A @ x # B))"
proof -
  have e: "map g (A @ x # B) = map f (A @ p # B)" using assms(1,3,4) by auto
  have "sorted_wrt (<) (map f (A @ p # B))" using assms(2) by (auto simp: sorted_wrt_append)
  then show ?thesis by (simp only: e)
qed

lemma erase_bst:
  assumes inv: "bst_tree (heap s) (root s) t" and nd: "nd \<in> set (nodes_of t)"
  shows "\<exists>s' t'. erase s (Some nd) = Some s' \<and> bst_tree (heap s') (root s') t'
           \<and> op_frame (heap s) t (heap s') t'"
proof -
  from inv have tr: "tree_at (heap s) None (root s) t" and di: "distinct (nodes_of t)"
    and so: "sorted_wrt (<) (map (nkey (heap s)) (nodes_of t))"
    by (simp_all add: bst_tree_def)
  from tree_at_lookup[OF tr nd] obtain n where n: "lookup (heap s) nd = Some n" by blast
  show ?thesis
  proof (cases "left n = None \<or> right n = None")
    case True
    from erase_simple[OF tr di nd n True] obtain s' t' where
      e: "erase s (Some nd) = Some s'" "tree_at (heap s') None (root s') t'"
        "nodes_of t' = filter (\<lambda>b. b \<noteq> nd) (nodes_of t)"
        "length (heap s') = length (heap s)"
        "\<forall>b. b \<noteq> nd \<longrightarrow> map_option (\<lambda>n. (key n, val n)) (lookup (heap s') b)
                           = map_option (\<lambda>n. (key n, val n)) (lookup (heap s) b)"
        "\<forall>b. b \<notin> set (nodes_of t) \<longrightarrow> lookup (heap s') b = lookup (heap s) b"
      by blast
    have eq: "map (nkey (heap s')) (nodes_of t') = map (nkey (heap s)) (nodes_of t')"
      using e(3,5) by (auto intro: kv_nkey)
    have "sorted_wrt (<) (map (nkey (heap s)) (nodes_of t'))"
      using so unfolding e(3) by (simp add: sorted_wrt_map sorted_wrt_filter)
    then have "sorted_wrt (<) (map (nkey (heap s')) (nodes_of t'))" by (simp only: eq)
    moreover have "distinct (nodes_of t')" using e(3) di by simp
    ultimately have "bst_tree (heap s') (root s') t'"
      using e(2) by (simp add: bst_tree_def)
    moreover have "op_frame (heap s) t (heap s') t'"
      using e(3,4,6) by (simp add: op_frame_def)
    ultimately show ?thesis using e(1) by blast
  next
    case False
    then obtain lc rc where c: "left n = Some lc" "right n = Some rc" by auto
    from sub_of_root[OF nd] obtain l r where sub: "sub_of t nd = Br l nd r" by blast
    from tree_at_sub[OF tr nd] sub
    have "tree_at (heap s) (parent_at (heap s) nd) (Some nd) (Br l nd r)" by simp
    with n c have tl: "tree_at (heap s) (Some nd) (Some lc) l" by auto
    then have lne: "nodes_of l \<noteq> []" by (cases l) auto
    define pred where "pred = last (nodes_of l)"
    from last_node_tree[OF tl] obtain pn where
      pn: "last_node (heap s) lc = Some pred" "lookup (heap s) pred = Some pn" "right pn = None"
      by (auto simp: pred_def)
    have pl: "pred \<in> set (nodes_of l)" using lne by (simp add: pred_def)
    have "distinct (nodes_of l @ nd # nodes_of r)"
      using sub_of_distinct[OF di, of nd] sub by simp
    with pl have pne: "pred \<noteq> nd" by auto
    have pt: "pred \<in> set (nodes_of t)" using sub_of_nodes[of t nd] sub pl by auto
    define h1 where "h1 = (heap s)[nd := Some (n\<lparr>key := key pn, val := val pn\<rparr>)]"
    define X where "X = erase (s\<lparr>heap := h1\<rparr>) (Some pred)"
    have run: "erase s (Some nd) = X"
      using n c pn
      by (subst erase.simps)
        (simp add: end_it_def has_children_def get_only_child_def X_def h1_def)
    have ndlen: "nd < length (heap s)" using n by (rule lookup_length)
    have lk: "\<forall>a. map_option (\<lambda>n. (parent n, left n, right n)) (lookup h1 a)
           = map_option (\<lambda>n. (parent n, left n, right n)) (lookup (heap s) a)"
      using n by (auto simp: h1_def)
    have tr1: "tree_at (heap (s\<lparr>heap := h1\<rparr>)) None (root (s\<lparr>heap := h1\<rparr>)) t"
      using links_tree[OF lk tr] by simp
    have n1: "lookup (heap (s\<lparr>heap := h1\<rparr>)) pred = Some pn"
      using pn(2) pne by (simp add: h1_def)
    have one: "left pn = None \<or> right pn = None" using pn(3) by simp
    from erase_simple[OF tr1 di pt n1 one] obtain s' t' where
      e: "X = Some s'" "tree_at (heap s') None (root s') t'"
        "nodes_of t' = filter (\<lambda>b. b \<noteq> pred) (nodes_of t)"
        "length (heap s') = length h1"
        "\<forall>b. b \<noteq> pred \<longrightarrow> map_option (\<lambda>n. (key n, val n)) (lookup (heap s') b)
                           = map_option (\<lambda>n. (key n, val n)) (lookup h1 b)"
        "\<forall>b. b \<notin> set (nodes_of t) \<longrightarrow> lookup (heap s') b = lookup h1 b"
      unfolding X_def by auto
    from subst_at_nodes[OF di nd, of Tip] sub obtain pre post where
      pp: "nodes_of t = pre @ (nodes_of l @ nd # nodes_of r) @ post" by auto
    define A where "A = pre @ butlast (nodes_of l)"
    define B where "B = nodes_of r @ post"
    have "nodes_of l = butlast (nodes_of l) @ [pred]" using lne by (simp add: pred_def)
    then have "pre @ (nodes_of l @ nd # nodes_of r) @ post = A @ pred # nd # B"
      unfolding A_def B_def by (metis append_Cons append_Nil append_assoc)
    with pp have shape: "nodes_of t = A @ pred # nd # B" by simp
    have dAB: "distinct (A @ pred # nd # B)" using di shape by simp
    then have "filter (\<lambda>b. b \<noteq> pred) A = A" "filter (\<lambda>b. b \<noteq> pred) B = B"
      by (auto simp: filter_id_conv)
    with pne have nt': "nodes_of t' = A @ nd # B" using e(3) shape by simp
    have g1: "nkey (heap s') nd = nkey (heap s) pred"
    proof -
      have "nkey (heap s') nd = nkey h1 nd" using e(5) pne by (intro kv_nkey) auto
      also have "\<dots> = key pn" using ndlen by (simp add: nkey_def h1_def)
      finally show ?thesis using pn(2) by (simp add: nkey_def)
    qed
    have g2: "\<forall>b. b \<noteq> nd \<longrightarrow> b \<noteq> pred \<longrightarrow> nkey (heap s') b = nkey (heap s) b"
    proof (intro allI impI)
      fix b assume b: "b \<noteq> nd" "b \<noteq> pred"
      have "nkey (heap s') b = nkey h1 b" using e(5) b by (intro kv_nkey) auto
      also have "\<dots> = nkey (heap s) b" using b by (simp add: nkey_def h1_def)
      finally show "nkey (heap s') b = nkey (heap s) b" .
    qed
    have "sorted_wrt (<) (map (nkey (heap s)) (A @ pred # nd # B))" using so shape by simp
    from sorted_drop_shift[OF dAB this g1 g2]
    have so': "sorted_wrt (<) (map (nkey (heap s')) (nodes_of t'))" using nt' by simp
    have "distinct (nodes_of t')" using e(3) di by simp
    with e(2) so' have b1: "bst_tree (heap s') (root s') t'" by (simp add: bst_tree_def)
    have b2: "op_frame (heap s) t (heap s') t'"
      using e(3,4,6) nd by (auto simp: op_frame_def h1_def)
    from run e(1) b1 b2 show ?thesis by blast
  qed
qed

lemma erase_two_tree:
  assumes inv: "bst_tree (heap s) (root s) t" and nd: "nd \<in> set (nodes_of t)"
    and n: "lookup (heap s) nd = Some n" and c: "left n = Some lc" "right n = Some rc"
  shows "\<exists>pred pn s' t' A B lt.
      nodes_of t = A @ pred # nd # B
    \<and> tree_at (heap s) (Some nd) (Some lc) lt \<and> pred \<in> set (nodes_of lt)
    \<and> (\<forall>x \<in> set (nodes_of lt). nkey (heap s) x \<le> nkey (heap s) pred)
    \<and> lookup (heap s) pred = Some pn
    \<and> erase s (Some nd) = Some s'
    \<and> bst_tree (heap s') (root s') t' \<and> nodes_of t' = A @ nd # B
    \<and> lookup (heap s') pred = None
    \<and> map_option (\<lambda>n. (key n, val n)) (lookup (heap s') nd) = Some (key pn, val pn)
    \<and> (\<forall>b. b \<noteq> nd \<longrightarrow> b \<noteq> pred \<longrightarrow>
          map_option (\<lambda>n. (key n, val n)) (lookup (heap s') b)
          = map_option (\<lambda>n. (key n, val n)) (lookup (heap s) b))
    \<and> size_field s' = size_field s - 1"
proof -
  from inv have tr: "tree_at (heap s) None (root s) t" and di: "distinct (nodes_of t)"
    and so: "sorted_wrt (<) (map (nkey (heap s)) (nodes_of t))"
    by (simp_all add: bst_tree_def)
  from sub_of_root[OF nd] obtain l r where sub: "sub_of t nd = Br l nd r" by blast
  from tree_at_sub[OF tr nd] sub
  have "tree_at (heap s) (parent_at (heap s) nd) (Some nd) (Br l nd r)" by simp
  with n c have tl: "tree_at (heap s) (Some nd) (Some lc) l" by auto
  then have lne: "nodes_of l \<noteq> []" by (cases l) auto
  define pred where "pred = last (nodes_of l)"
  from last_node_tree[OF tl] obtain pn where
    pn: "last_node (heap s) lc = Some pred" "lookup (heap s) pred = Some pn" "right pn = None"
    by (auto simp: pred_def)
  have pl: "pred \<in> set (nodes_of l)" using lne by (simp add: pred_def)
  have "distinct (nodes_of l @ nd # nodes_of r)"
    using sub_of_distinct[OF di, of nd] sub by simp
  with pl have pne: "pred \<noteq> nd" by auto
  have pt: "pred \<in> set (nodes_of t)" using sub_of_nodes[of t nd] sub pl by auto
  define h1 where "h1 = (heap s)[nd := Some (n\<lparr>key := key pn, val := val pn\<rparr>)]"
  define X where "X = erase (s\<lparr>heap := h1\<rparr>) (Some pred)"
  have run: "erase s (Some nd) = X"
    using n c pn
    by (subst erase.simps)
      (simp add: end_it_def has_children_def get_only_child_def X_def h1_def)
  have ndlen: "nd < length (heap s)" using n by (rule lookup_length)
  have lk: "\<forall>a. map_option (\<lambda>n. (parent n, left n, right n)) (lookup h1 a)
         = map_option (\<lambda>n. (parent n, left n, right n)) (lookup (heap s) a)"
    using n by (auto simp: h1_def)
  have tr1: "tree_at (heap (s\<lparr>heap := h1\<rparr>)) None (root (s\<lparr>heap := h1\<rparr>)) t"
    using links_tree[OF lk tr] by simp
  have n1: "lookup (heap (s\<lparr>heap := h1\<rparr>)) pred = Some pn"
    using pn(2) pne by (simp add: h1_def)
  have one: "left pn = None \<or> right pn = None" using pn(3) by simp
  from erase_simple[OF tr1 di pt n1 one] obtain s' t' where
    e: "X = Some s'" "tree_at (heap s') None (root s') t'"
      "nodes_of t' = filter (\<lambda>b. b \<noteq> pred) (nodes_of t)"
      "length (heap s') = length h1"
      "\<forall>b. b \<noteq> pred \<longrightarrow> map_option (\<lambda>n. (key n, val n)) (lookup (heap s') b)
                         = map_option (\<lambda>n. (key n, val n)) (lookup h1 b)"
      "\<forall>b. b \<notin> set (nodes_of t) \<longrightarrow> lookup (heap s') b = lookup h1 b"
      "lookup (heap s') pred = None"
      "size_field s' = size_field s - 1"
    unfolding X_def by auto
  from subst_at_nodes[OF di nd, of Tip] sub obtain pre post where
    pp: "nodes_of t = pre @ (nodes_of l @ nd # nodes_of r) @ post" by auto
  define A where "A = pre @ butlast (nodes_of l)"
  define B where "B = nodes_of r @ post"
  have lsplit: "nodes_of l = butlast (nodes_of l) @ [pred]" using lne by (simp add: pred_def)
  then have "pre @ (nodes_of l @ nd # nodes_of r) @ post = A @ pred # nd # B"
    unfolding A_def B_def by (metis append_Cons append_Nil append_assoc)
  with pp have shape: "nodes_of t = A @ pred # nd # B" by simp
  have dAB: "distinct (A @ pred # nd # B)" using di shape by simp
  then have "filter (\<lambda>b. b \<noteq> pred) A = A" "filter (\<lambda>b. b \<noteq> pred) B = B"
    by (auto simp: filter_id_conv)
  with pne have nt': "nodes_of t' = A @ nd # B" using e(3) shape by simp
  have kvnd: "map_option (\<lambda>n. (key n, val n)) (lookup (heap s') nd) = Some (key pn, val pn)"
    using e(5) pne ndlen by (simp add: h1_def)
  have kvo: "\<forall>b. b \<noteq> nd \<longrightarrow> b \<noteq> pred \<longrightarrow>
          map_option (\<lambda>n. (key n, val n)) (lookup (heap s') b)
          = map_option (\<lambda>n. (key n, val n)) (lookup (heap s) b)"
    using e(5) by (simp add: h1_def)
  have g1: "nkey (heap s') nd = nkey (heap s) pred"
    using kvnd pn(2) by (auto simp: nkey_def)
  have g2: "\<forall>b. b \<noteq> nd \<longrightarrow> b \<noteq> pred \<longrightarrow> nkey (heap s') b = nkey (heap s) b"
    using kvo by (auto intro: kv_nkey)
  have sAB: "sorted_wrt (<) (map (nkey (heap s)) (A @ pred # nd # B))" using so shape by simp
  from sorted_drop_shift[OF dAB sAB g1 g2]
  have so': "sorted_wrt (<) (map (nkey (heap s')) (nodes_of t'))" using nt' by simp
  have "distinct (nodes_of t')" using e(3) di by simp
  with e(2) so' have b1: "bst_tree (heap s') (root s') t'" by (simp add: bst_tree_def)
  have "sorted_wrt (<) (map (nkey (heap s)) (butlast (nodes_of l) @ [pred]))"
    using so lsplit unfolding pp by (simp add: sorted_wrt_append)
  then have "\<forall>x \<in> set (butlast (nodes_of l)). nkey (heap s) x < nkey (heap s) pred"
    by (simp add: sorted_wrt_append)
  then have mx: "\<forall>x \<in> set (nodes_of l). nkey (heap s) x \<le> nkey (heap s) pred"
    using lsplit by (metis insert_iff less_imp_le list.simps(15) order_refl rotate1.simps(2) set_rotate1)
  from shape tl pl mx pn(2) run e(1) b1 nt' e(7) kvnd kvo e(8) show ?thesis by blast
qed

subsection \<open>Frames, teardown and copying\<close>

lemma bst_tree_frame:
  assumes "\<forall>a \<in> set (nodes_of t). lookup h' a = lookup h a" "bst_tree h r t"
  shows "bst_tree h' r t"
proof -
  have "tree_at h' None r t = tree_at h None r t"
    by (rule tree_at_frame) (use assms(1) in simp)
  moreover have eq: "map (nkey h') (nodes_of t) = map (nkey h) (nodes_of t)"
    using assms(1) by (simp add: nkey_def)
  moreover have "sorted_wrt (<) (map (nkey h') (nodes_of t))"
    using assms(2) by (simp only: eq bst_tree_def)
  ultimately show ?thesis using assms(2) by (simp add: bst_tree_def)
qed

lemma op_frame_refl: "op_frame h t h t"
  by (simp add: op_frame_def)

lemma op_frame_trans:
  assumes "op_frame h t h1 t1" "op_frame h1 t1 h2 t2"
  shows "op_frame h t h2 t2"
  unfolding op_frame_def
proof (intro conjI ballI allI impI)
  show "length h \<le> length h2" using assms by (simp add: op_frame_def)
next
  fix b assume "b \<in> set (nodes_of t2)"
  with assms(2) have "b \<in> set (nodes_of t1) \<or> length h1 \<le> b" by (simp add: op_frame_def)
  moreover have "length h \<le> length h1" using assms(1) by (simp add: op_frame_def)
  moreover have "b \<in> set (nodes_of t1) \<Longrightarrow> b \<in> set (nodes_of t) \<or> length h \<le> b"
    using assms(1) by (simp add: op_frame_def)
  ultimately show "b \<in> set (nodes_of t) \<or> length h \<le> b" by auto
next
  fix b assume b: "b \<notin> set (nodes_of t)" "b < length h"
  have l: "length h \<le> length h1" using assms(1) by (simp add: op_frame_def)
  have "b \<notin> set (nodes_of t1)"
  proof
    assume "b \<in> set (nodes_of t1)"
    with assms(1) have "b \<in> set (nodes_of t) \<or> length h \<le> b" by (simp add: op_frame_def)
    with b show False by simp
  qed
  with assms(2) b(2) l have "lookup h2 b = lookup h1 b" by (simp add: op_frame_def)
  also have "\<dots> = lookup h b" using assms(1) b by (simp add: op_frame_def)
  finally show "lookup h2 b = lookup h b" .
qed

lemma tree_closed: "tree_at h par p t \<Longrightarrow> closed h (set (nodes_of t))"
  unfolding closed_def
proof (intro ballI allI impI)
  fix a n c
  assume tr: "tree_at h par p t" and a: "a \<in> set (nodes_of t)" and n: "lookup h a = Some n"
    and c: "left n = Some c \<or> right n = Some c"
  from sub_of_root[OF a] obtain l r where sub: "sub_of t a = Br l a r" by blast
  from tree_at_sub[OF tr a] sub n have "tree_at h (Some a) (left n) l" "tree_at h (Some a) (right n) r"
    by auto
  with c have "c \<in> set (nodes_of l) \<or> c \<in> set (nodes_of r)"
    by (auto dest: tree_at_root_in)
  with sub sub_of_nodes[of t a] show "c \<in> set (nodes_of t)" by auto
qed

lemma tl_push:
  "tl (push_back_opt (push_back_opt (x # rest) l) r) = push_back_opt (push_back_opt rest l) r"
  by (cases l; cases r) (simp_all add: push_back_opt_def)

lemma set_push: "set (push_back_opt q c) = set q \<union> set_option c"
  by (cases c) (simp_all add: push_back_opt_def)

lemma closed_delete: "closed h N \<Longrightarrow> closed (h[x := None]) N"
  unfolding closed_def
proof (intro ballI allI impI)
  fix a n' c
  assume cl: "\<forall>a\<in>N. \<forall>n. lookup h a = Some n \<longrightarrow> (\<forall>c. left n = Some c \<or> right n = Some c \<longrightarrow> c \<in> N)"
    and a: "a \<in> N" and l: "lookup (h[x := None]) a = Some n'"
    and c: "left n' = Some c \<or> right n' = Some c"
  from l have "lookup h a = Some n'" by (simp split: if_splits)
  with cl a c show "c \<in> N" by blast
qed

lemma clear_loop_frame:
  "clear_loop s0 q0 = Some s0' \<Longrightarrow>
   \<forall>N. set q0 \<subseteq> N \<longrightarrow> closed (heap s0) N \<longrightarrow>
     (root s0' = root s0 \<and> length (heap s0') = length (heap s0)
      \<and> (\<forall>b. b \<notin> N \<longrightarrow> lookup (heap s0') b = lookup (heap s0) b))"
proof (rule clear_loop.raw_induct[where
      P = "\<lambda>s q s'. \<forall>N. set q \<subseteq> N \<longrightarrow> closed (heap s) N \<longrightarrow>
     (root s' = root s \<and> length (heap s') = length (heap s)
      \<and> (\<forall>b. b \<notin> N \<longrightarrow> lookup (heap s') b = lookup (heap s) b))"
      and s = s0 and deletion_queue = q0 and y = s0'],
    goal_cases)
  case (1 f s q s')
  show ?case
  proof (intro allI impI)
    fix N assume qN: "set q \<subseteq> N" and cl: "closed (heap s) N"
    show "root s' = root s \<and> length (heap s') = length (heap s)
      \<and> (\<forall>b. b \<notin> N \<longrightarrow> lookup (heap s') b = lookup (heap s) b)"
    proof (cases q)
      case Nil
      with "1"(3) show ?thesis by simp
    next
      case (Cons x rest)
      define s1 where "s1 = s\<lparr>heap := (heap s)[x := None], size_field := size_field s - 1\<rparr>"
      from "1"(3)[unfolded Cons] have e: "(case lookup (heap s) x of None \<Rightarrow> None
           | Some n \<Rightarrow>
               (case delete_node (heap s) x of None \<Rightarrow> None
                | Some h1 \<Rightarrow>
                    f (s\<lparr>heap := h1, size_field := size_field s - 1\<rparr>)
                      (tl (push_back_opt (push_back_opt (x # rest) (left n)) (right n))))) = Some s'"
        by simp
      then obtain n where n: "lookup (heap s) x = Some n" by (cases "lookup (heap s) x") auto
      have dn: "delete_node (heap s) x = Some ((heap s)[x := None])"
        using n by (simp add: delete_node_def)
      from e have r: "f s1 (push_back_opt (push_back_opt rest (left n)) (right n)) = Some s'"
        unfolding n dn s1_def tl_push by simp
      have xN: "x \<in> N" using qN Cons by simp
      have ch: "\<forall>c. left n = Some c \<or> right n = Some c \<longrightarrow> c \<in> N"
        using cl n xN unfolding closed_def by blast
      have q': "set (push_back_opt (push_back_opt rest (left n)) (right n)) \<subseteq> N"
        using qN Cons ch by (auto simp: set_push)
      have cl': "closed (heap s1) N"
        using closed_delete[OF cl, of x] by (simp add: s1_def)
      from "1"(2)[OF r, rule_format, OF q' cl']
      have ih: "root s' = root s1" "length (heap s') = length (heap s1)"
        "\<forall>b. b \<notin> N \<longrightarrow> lookup (heap s') b = lookup (heap s1) b" by simp_all
      have "\<forall>b. b \<notin> N \<longrightarrow> lookup (heap s') b = lookup (heap s) b"
      proof (intro allI impI)
        fix b assume b: "b \<notin> N"
        with xN have "b \<noteq> x" by auto
        with ih(3) b show "lookup (heap s') b = lookup (heap s) b" by (simp add: s1_def)
      qed
      with ih(1,2) show ?thesis by (simp add: s1_def)
    qed
  qed
next
  case 2
  then show ?case by simp
qed

lemma clear_bst:
  assumes inv: "bst_tree (heap s) (root s) t" and run: "clear s = Some s'"
  shows "bst_tree (heap s') (root s') Tip \<and> op_frame (heap s) t (heap s') Tip"
proof (cases "root s")
  case None
  with run have "s' = s" by (simp add: clear_def)
  with None show ?thesis by (simp add: bst_tree_def op_frame_def)
next
  case (Some r)
  with run have r: "clear_loop (s\<lparr>root := None\<rparr>) [r] = Some s'" by (simp add: clear_def)
  from inv have tr: "tree_at (heap s) None (root s) t" by (simp add: bst_tree_def)
  with Some have rin: "r \<in> set (nodes_of t)" by (auto dest: tree_at_root_in)
  have cl: "closed (heap (s\<lparr>root := None\<rparr>)) (set (nodes_of t))"
    using tree_closed[OF tr] by simp
  from clear_loop_frame[OF r, rule_format, of "set (nodes_of t)"] rin cl
  show ?thesis by (simp add: bst_tree_def op_frame_def)
qed

lemma copy_loop_bst:
  "copy_loop dv0 s0 q0 = Some s0' \<Longrightarrow>
   \<forall>t. bst_tree (heap s0) (root s0) t \<longrightarrow>
     (\<exists>t'. bst_tree (heap s0') (root s0') t' \<and> op_frame (heap s0) t (heap s0') t')"
proof (rule copy_loop.raw_induct[where
      P = "\<lambda>dv s q s'. \<forall>t. bst_tree (heap s) (root s) t \<longrightarrow>
     (\<exists>t'. bst_tree (heap s') (root s') t' \<and> op_frame (heap s) t (heap s') t')"
      and dv = dv0 and s = s0 and insert_list = q0 and y = s0'],
    goal_cases)
  case (1 f dv s q s')
  show ?case
  proof (intro allI impI)
    fix t assume inv: "bst_tree (heap s) (root s) t"
    show "\<exists>t'. bst_tree (heap s') (root s') t' \<and> op_frame (heap s) t (heap s') t'"
    proof (cases q)
      case Nil
      with "1"(3) inv show ?thesis by (auto intro: op_frame_refl)
    next
      case (Cons x rest)
      with "1"(3) obtain c s1 a h2 c2 where c: "lookup (heap s) x = Some c"
        and ix: "indexer dv s (key c) = Some (s1, a)"
        and md: "modify (heap s1) a (\<lambda>n. n\<lparr>val := val c\<rparr>) = Some h2"
        and c2: "lookup h2 x = Some c2"
        and r: "f dv (s1\<lparr>heap := h2\<rparr>)
                 (tl (push_back_opt (push_back_opt (x # rest) (left c2)) (right c2))) = Some s'"
        by (auto split: option.splits prod.splits)
      from indexer_bst[OF inv ix] obtain t1 where
        t1: "bst_tree (heap s1) (root s1) t1" "a \<in> set (nodes_of t1)"
          "op_frame (heap s) t (heap s1) t1" by blast
      have kl: "same_kl (heap s1) h2" using md by (rule assign_same_kl)
      have b2: "bst_tree (heap (s1\<lparr>heap := h2\<rparr>)) (root (s1\<lparr>heap := h2\<rparr>)) t1"
        using same_kl_bst[OF kl t1(1)] by simp
      have "op_frame (heap s1) t1 h2 t1"
        using md t1(2) by (auto simp: op_frame_def modify_def split: option.splits)
      with t1(3) have f2: "op_frame (heap s) t h2 t1" by (rule op_frame_trans)
      from "1"(2)[OF r, rule_format, OF b2] obtain t' where
        t': "bst_tree (heap s') (root s') t'" "op_frame h2 t1 (heap s') t'" by auto
      from op_frame_trans[OF f2 t'(2)] t'(1) show ?thesis by blast
    qed
  qed
next
  case 2
  then show ?case by simp
qed

subsection \<open>Several maps in one store\<close>

lemma winv_step:
  assumes inv: "winvT w T" and b: "bst_tree (heap s') (root s') t'"
    and fr: "op_frame (nodes w) t0 (heap s') t'"
    and sub: "set (nodes_of t0) \<subseteq> set (nodes_of (T m))"
  shows "winvT (leave w m s') (T(m := t'))"
proof -
  from inv have bt: "\<And>m. bst_tree (nodes w) (root_of (objs w m)) (T m)"
    and dj: "\<And>m m'. m \<noteq> m' \<Longrightarrow> set (nodes_of (T m)) \<inter> set (nodes_of (T m')) = {}"
    by (simp_all add: winvT_def)
  have len: "\<And>m a. a \<in> set (nodes_of (T m)) \<Longrightarrow> a < length (nodes w)"
    using bt tree_at_nodes_length unfolding bst_tree_def by blast
  have other: "\<And>m' a. m' \<noteq> m \<Longrightarrow> a \<in> set (nodes_of (T m')) \<Longrightarrow> a \<notin> set (nodes_of t')"
  proof
    fix m' a assume m': "m' \<noteq> m" and a: "a \<in> set (nodes_of (T m'))" and a': "a \<in> set (nodes_of t')"
    from fr a' have "a \<in> set (nodes_of t0) \<or> length (nodes w) \<le> a" by (simp add: op_frame_def)
    moreover have "a \<notin> set (nodes_of (T m))" using dj[OF m'] a by auto
    moreover have "a < length (nodes w)" using len[OF a] .
    ultimately show False using sub by auto
  qed
  have keep: "\<And>m'. m' \<noteq> m \<Longrightarrow> bst_tree (heap s') (root_of (objs w m')) (T m')"
  proof -
    fix m' assume m': "m' \<noteq> m"
    have "\<forall>a \<in> set (nodes_of (T m')). lookup (heap s') a = lookup (nodes w) a"
    proof
      fix a assume a: "a \<in> set (nodes_of (T m'))"
      have "a \<notin> set (nodes_of (T m))" using dj[OF m'] a by auto
      with sub have "a \<notin> set (nodes_of t0)" by auto
      with fr len[OF a] show "lookup (heap s') a = lookup (nodes w) a" by (simp add: op_frame_def)
    qed
    from bst_tree_frame[OF this bt] show "bst_tree (heap s') (root_of (objs w m')) (T m')" .
  qed
  show ?thesis
    unfolding winvT_def
  proof (intro conjI allI impI)
    fix m1
    show "bst_tree (nodes (leave w m s')) (root_of (objs (leave w m s') m1)) ((T(m := t')) m1)"
      using b keep[of m1] by (simp add: leave_def)
  next
    fix m1 m2 :: mref assume ne: "m1 \<noteq> m2"
    show "set (nodes_of ((T(m := t')) m1)) \<inter> set (nodes_of ((T(m := t')) m2)) = {}"
    proof (cases "m1 = m")
      case True
      with ne have "m2 \<noteq> m" by simp
      with True other[of m2] show ?thesis by auto
    next
      case False
      show ?thesis
      proof (cases "m2 = m")
        case True
        with False other[of m1] show ?thesis by auto
      next
        case F2: False
        with False dj[OF ne] show ?thesis by simp
      qed
    qed
  qed
qed

lemma winv_enter: "winvT w T \<Longrightarrow> bst_tree (heap (enter w m)) (root (enter w m)) (T m)"
  by (simp add: winvT_def enter_def)

lemma winv_move_ctor:
  assumes "winvT w T"
  shows "winvT (move_ctor w this rhs) (if this = rhs then T else T(rhs := Tip, this := T rhs))"
proof (cases "this = rhs")
  case True
  with assms show ?thesis
    by (simp add: winvT_def move_ctor_def set_root_of_def set_size_of_def Let_def)
next
  case False
  from assms have bt: "\<And>m. bst_tree (nodes w) (root_of (objs w m)) (T m)"
    and dj: "\<And>m m'. m \<noteq> m' \<Longrightarrow> set (nodes_of (T m)) \<inter> set (nodes_of (T m')) = {}"
    by (simp_all add: winvT_def)
  have n: "nodes (move_ctor w this rhs) = nodes w"
    by (simp add: move_ctor_def set_root_of_def set_size_of_def Let_def)
  have r: "\<And>m. root_of (objs (move_ctor w this rhs) m) =
      (if m = this then root_of (objs w rhs) else if m = rhs then None else root_of (objs w m))"
    using False by (simp add: move_ctor_def set_root_of_def set_size_of_def Let_def)
  have tip: "\<And>h. bst_tree h None Tip" by (simp add: bst_tree_def)
  show ?thesis
    unfolding winvT_def
  proof (intro conjI allI impI)
    fix m
    show "bst_tree (nodes (move_ctor w this rhs)) (root_of (objs (move_ctor w this rhs) m))
            ((if this = rhs then T else T(rhs := Tip, this := T rhs)) m)"
      using False bt[of m] bt[of rhs] by (simp add: n r tip)
  next
    fix m1 m2 :: mref assume ne: "m1 \<noteq> m2"
    show "set (nodes_of ((if this = rhs then T else T(rhs := Tip, this := T rhs)) m1)) \<inter>
          set (nodes_of ((if this = rhs then T else T(rhs := Tip, this := T rhs)) m2)) = {}"
      using False ne dj[of m1 m2] dj[of rhs m2] dj[of m1 rhs] by auto
  qed
qed

lemma move_assign_split:
  "move_assign w this rhs = Some w' \<Longrightarrow>
   \<exists>s1. clear (enter w this) = Some s1 \<and> w' = move_ctor (leave w this s1) this rhs"
  by (auto simp: move_assign_def move_ctor_def Let_def bind_eq_Some_conv)

lemma subtree_nodes_tree: "tree_at h par p t \<Longrightarrow> subtree_nodes h p = Some (nodes_of t)"
proof (induction t arbitrary: par p)
  case Tip
  then show ?case by (subst subtree_nodes.simps) simp
next
  case (Br l a r)
  from Br.prems obtain n where n: "p = Some a" "lookup h a = Some n"
    "tree_at h (Some a) (left n) l" "tree_at h (Some a) (right n) r" by auto
  from Br.IH(1)[OF n(3)] Br.IH(2)[OF n(4)] n(1,2) show ?case
    by (subst subtree_nodes.simps) simp
qed

lemma reachable_winv: "reachable dv w \<Longrightarrow> winv w"
proof (induction rule: reachable.induct)
  case r_init
  have "winvT (empty_world :: ('b, 'a) world) (\<lambda>m. Tip)"
    by (simp add: winvT_def empty_world_def bst_tree_def)
  then show ?case unfolding winv_def by blast
next
  case (r_index w m k s' a)
  from r_index.IH obtain T where T: "winvT w T" unfolding winv_def by blast
  from indexer_bst[OF winv_enter[OF T] r_index.hyps(2)] obtain t' where
    t': "bst_tree (heap s') (root s') t'" "op_frame (nodes w) (T m) (heap s') t'"
    by (auto simp: enter_def)
  from winv_step[OF T t' subset_refl] show ?case unfolding winv_def by blast
next
  case (r_assign w m k s' a v h2)
  from r_assign.IH obtain T where T: "winvT w T" unfolding winv_def by blast
  from indexer_bst[OF winv_enter[OF T] r_assign.hyps(2)] obtain t' where
    t': "bst_tree (heap s') (root s') t'" "a \<in> set (nodes_of t')"
      "op_frame (nodes w) (T m) (heap s') t'"
    by (auto simp: enter_def)
  have kl: "same_kl (heap s') h2" using r_assign.hyps(3) by (rule assign_same_kl)
  have b2: "bst_tree (heap (s'\<lparr>heap := h2\<rparr>)) (root (s'\<lparr>heap := h2\<rparr>)) t'"
    using same_kl_bst[OF kl t'(1)] by simp
  have "op_frame (heap s') t' h2 t'"
    using r_assign.hyps(3) t'(2) by (auto simp: op_frame_def modify_def split: option.splits)
  with t'(3) have "op_frame (nodes w) (T m) (heap (s'\<lparr>heap := h2\<rparr>)) t'"
    by (simp add: op_frame_trans)
  from winv_step[OF T b2 this subset_refl] show ?case unfolding winv_def by blast
next
  case (r_erase w m it s')
  from r_erase.IH obtain T where T: "winvT w T" unfolding winv_def by blast
  note b = winv_enter[OF T, of m]
  have "\<exists>t'. bst_tree (heap s') (root s') t' \<and> op_frame (nodes w) (T m) (heap s') t'"
  proof (cases it)
    case None
    with r_erase.hyps(3) have "s' = enter w m"
      by (subst (asm) erase.simps) (simp add: end_it_def)
    with b show ?thesis by (auto simp: enter_def intro: op_frame_refl)
  next
    case (Some nd)
    from b have "tree_at (heap (enter w m)) None (root (enter w m)) (T m)"
      by (simp add: bst_tree_def)
    from subtree_nodes_tree[OF this] r_erase.hyps(2) Some
    have "nd \<in> set (nodes_of (T m))" by (auto simp: cursor_def end_it_def)
    from erase_bst[OF b this] r_erase.hyps(3) Some show ?thesis by (auto simp: enter_def)
  qed
  then obtain t' where t': "bst_tree (heap s') (root s') t'"
    "op_frame (nodes w) (T m) (heap s') t'" by blast
  from winv_step[OF T t' subset_refl] show ?case unfolding winv_def by blast
next
  case (r_clear w m s')
  from r_clear.IH obtain T where T: "winvT w T" unfolding winv_def by blast
  from clear_bst[OF winv_enter[OF T] r_clear.hyps(2)]
  have t': "bst_tree (heap s') (root s') Tip" "op_frame (nodes w) (T m) (heap s') Tip"
    by (simp_all add: enter_def)
  from winv_step[OF T t' subset_refl] show ?case unfolding winv_def by blast
next
  case (r_copy_construct w this rhs w')
  from r_copy_construct.IH obtain T where T: "winvT w T" unfolding winv_def by blast
  from r_copy_construct.hyps(2) obtain s' where
    s': "copy_ctor dv (enter w rhs) = Some s'" "w' = leave w this s'"
    by (auto simp: copy_construct_def split: option.splits)
  have "\<exists>t'. bst_tree (heap s') (root s') t' \<and> op_frame (nodes w) Tip (heap s') t'"
  proof (cases "root (enter w rhs)")
    case None
    with s'(1) have "heap s' = nodes w" "root s' = None"
      by (auto simp: copy_ctor_def enter_def)
    then show ?thesis by (intro exI[of _ Tip]) (simp add: bst_tree_def op_frame_def)
  next
    case (Some r)
    with s'(1) have cl: "copy_loop dv \<lparr>heap = nodes w, root = None,
        size_field = size_of (objs w rhs)\<rparr> [r] = Some s'"
      by (simp add: copy_ctor_def enter_def)
    from copy_loop_bst[OF cl, rule_format, of Tip] show ?thesis by (simp add: bst_tree_def)
  qed
  then obtain t' where t': "bst_tree (heap s') (root s') t'"
    "op_frame (nodes w) Tip (heap s') t'" by blast
  have "set (nodes_of Tip) \<subseteq> set (nodes_of (T this))" by simp
  from winv_step[OF T t' this] s'(2) show ?case unfolding winv_def by blast
next
  case (r_copy_assign w this rhs w')
  from r_copy_assign.IH obtain T where T: "winvT w T" unfolding winv_def by blast
  show ?case
  proof (cases "this = rhs")
    case True
    with r_copy_assign.hyps(2) have "w' = w" by (simp add: copy_assign_def)
    with T show ?thesis unfolding winv_def by blast
  next
    case False
    with r_copy_assign.hyps(2) obtain s1 where s1: "clear (enter w this) = Some s1"
      and rest: "(case root_of (objs (leave w this s1) rhs) of None \<Rightarrow> Some (leave w this s1)
         | Some r \<Rightarrow> copy_loop dv (enter (leave w this s1) this) [r]
              \<bind> (\<lambda>s2. Some (leave (leave w this s1) this s2))) = Some w'"
      by (auto simp: copy_assign_def Let_def bind_eq_Some_conv)
    define w1 where "w1 = leave w this s1"
    from clear_bst[OF winv_enter[OF T] s1]
    have t1: "bst_tree (heap s1) (root s1) Tip" "op_frame (nodes w) (T this) (heap s1) Tip"
      by (simp_all add: enter_def)
    from winv_step[OF T t1 subset_refl] have T1: "winvT w1 (T(this := Tip))" by (simp add: w1_def)
    show ?thesis
    proof (cases "root_of (objs w1 rhs)")
      case None
      with rest have "w' = w1" by (simp add: w1_def)
      with T1 show ?thesis unfolding winv_def by blast
    next
      case (Some r)
      with rest obtain s2 where s2: "copy_loop dv (enter w1 this) [r] = Some s2"
        "w' = leave w1 this s2"
        by (auto simp: w1_def bind_eq_Some_conv)
      from copy_loop_bst[OF s2(1), rule_format, OF winv_enter[OF T1]] obtain t' where
        t': "bst_tree (heap s2) (root s2) t'"
          "op_frame (nodes w1) ((T(this := Tip)) this) (heap s2) t'"
        by (auto simp: enter_def)
      from winv_step[OF T1 t' subset_refl] s2(2) show ?thesis unfolding winv_def by blast
    qed
  qed
next
  case (r_move_construct w this rhs)
  from r_move_construct.IH obtain T where T: "winvT w T" unfolding winv_def by blast
  from winv_move_ctor[OF T] show ?case unfolding winv_def by blast
next
  case (r_move_assign w this rhs w')
  from r_move_assign.IH obtain T where T: "winvT w T" unfolding winv_def by blast
  from move_assign_split[OF r_move_assign.hyps(2)] obtain s1 where
    s1: "clear (enter w this) = Some s1" "w' = move_ctor (leave w this s1) this rhs" by blast
  from clear_bst[OF winv_enter[OF T] s1(1)]
  have t1: "bst_tree (heap s1) (root s1) Tip" "op_frame (nodes w) (T this) (heap s1) Tip"
    by (simp_all add: enter_def)
  from winv_step[OF T t1 subset_refl] have "winvT (leave w this s1) (T(this := Tip))" .
  from winv_move_ctor[OF this] s1(2) show ?case unfolding winv_def by blast
qed

subsection \<open>From the tree abstraction to the observed ordering\<close>

lemma map_filter_keys:
  "(\<forall>a \<in> set as. \<exists>n. lookup h a = Some n) \<Longrightarrow> List.map_filter (key_at h) as = map (nkey h) as"
  by (induction as) (auto simp: List.map_filter_simps key_at_def nkey_def)

lemma subtree_keys_tree:
  assumes "tree_at h par p t"
  shows "subtree_keys h p = Some (map (nkey h) (nodes_of t))"
proof -
  have "\<forall>a \<in> set (nodes_of t). \<exists>n. lookup h a = Some n"
    using tree_at_lookup[OF assms] by blast
  from map_filter_keys[OF this] subtree_nodes_tree[OF assms] show ?thesis
    by (simp add: subtree_keys_def)
qed

lemma bst_tree_node:
  assumes inv: "bst_tree h r t" and a: "a \<in> set (nodes_of t)"
  shows "bst_node h a"
proof -
  from inv have tr: "tree_at h None r t" and di: "distinct (nodes_of t)"
    and so: "sorted_wrt (<) (map (nkey h) (nodes_of t))"
    by (simp_all add: bst_tree_def)
  from tree_at_lookup[OF tr a] obtain n where n: "lookup h a = Some n" by blast
  from sub_of_root[OF a] obtain l r' where sub: "sub_of t a = Br l a r'" by blast
  from tree_at_sub[OF tr a] sub n
  have tl: "tree_at h (Some a) (left n) l" and trr: "tree_at h (Some a) (right n) r'" by auto
  from subst_at_nodes[OF di a, of Tip] sub obtain pre post where
    pp: "nodes_of t = pre @ (nodes_of l @ a # nodes_of r') @ post" by auto
  have nk: "nkey h a = key n" using n by (simp add: nkey_def)
  from so have "sorted_wrt (<) (map (nkey h) (nodes_of l @ a # nodes_of r'))"
    unfolding pp by (simp add: sorted_wrt_append)
  then have lo: "\<forall>x \<in> set (nodes_of l). nkey h x < key n"
    and hi: "\<forall>y \<in> set (nodes_of r'). key n < nkey h y"
    using nk by (auto simp: sorted_wrt_append)
  show ?thesis
    using n subtree_keys_tree[OF tl] subtree_keys_tree[OF trr] lo hi
    by (simp add: bst_node_def list_all_iff)
qed

lemma bst_tree_ordered: "bst_tree (heap s) (root s) t \<Longrightarrow> bst_ordered s"
proof -
  assume inv: "bst_tree (heap s) (root s) t"
  then have "tree_at (heap s) None (root s) t" by (simp add: bst_tree_def)
  from subtree_nodes_tree[OF this] bst_tree_node[OF inv] show ?thesis
    by (simp add: bst_ordered_def list_all_iff)
qed

lemma enter_leave: "enter (leave w m s) m = s"
  by (simp add: enter_def leave_def)

lemma leave_leave: "leave (leave w m s1) m s2 = leave w m s2"
  by (simp add: leave_def)

lemma leave_enter: "leave w m (enter w m) = w"
proof -
  have e: "\<lparr>root_of = root_of (objs w m), size_of = size_of (objs w m)\<rparr> = objs w m"
    by (cases "objs w m") simp
  show ?thesis by (simp add: leave_def enter_def e)
qed

lemma reachable_inserts:
  "reachable dv w \<Longrightarrow> inserts dv (enter w m) ks = Some s' \<Longrightarrow> reachable dv (leave w m s')"
proof (induction ks arbitrary: w)
  case Nil
  then have "s' = enter w m" by simp
  with Nil.prems(1) show ?case by (simp add: leave_enter)
next
  case (Cons k ks)
  from Cons.prems(2) obtain s1 a where s1: "indexer dv (enter w m) k = Some (s1, a)"
    "inserts dv s1 ks = Some s'"
    by (auto split: option.splits)
  from reachable.r_index[OF Cons.prems(1) s1(1)] have r1: "reachable dv (leave w m s1)" .
  from Cons.IH[OF r1] s1(2) show ?case by (simp add: enter_leave leave_leave)
qed

lemma enter_empty_world: "enter empty_world m = empty_map"
  by (simp add: enter_def empty_world_def empty_map_def)

text \<open>
  Claim C4.  In every world reachable by a sequence of public operations (insertions
  through \<^verbatim>\<open>operator[]\<close>, assignments through it, erasures through cursors of the map,
  \<^verbatim>\<open>clear\<close>, copy construction and assignment, move construction and assignment), every
  map object is ordered: for each of its nodes, every key in the left subtree is less than
  the node's key and every key in the right subtree is greater.
\<close>

theorem reachable_bst_ordered: "reachable dv w \<Longrightarrow> bst_ordered (enter w m)"
proof -
  assume "reachable dv w"
  then have "winv w" by (rule reachable_winv)
  then obtain T where "winvT w T" unfolding winv_def by blast
  from bst_tree_ordered[OF winv_enter[OF this]] show ?thesis .
qed

theorem reachable_bst_ordered_witness:
  "reachable (0::int) (leave (empty_world :: (int, int) world) 0 map7)
   \<and> bst_ordered (enter (leave (empty_world :: (int, int) world) 0 map7) 0)"
proof -
  have "inserts (0::int) (enter (empty_world :: (int, int) world) 0) [5, 3, 8, 1, 4, 7, 9] = Some map7"
    using inserts_seven by (simp add: enter_empty_world)
  from reachable_inserts[OF reachable.r_init this]
  have r: "reachable (0::int) (leave (empty_world :: (int, int) world) 0 map7)" .
  from reachable_bst_ordered[OF r, of 0] r show ?thesis by simp
qed

text \<open>
  Claim C9.  In every reachable world, erasing a node \<open>a\<close> of a map that has two children
  returns, and it removes the in-order predecessor \<open>p\<close> of \<open>a\<close>: \<open>p\<close> is the node just
  before \<open>a\<close> in the in-order list of the map, it lies in the left subtree of \<open>a\<close> and
  carries the largest key of that subtree.  Afterwards the cell of \<open>p\<close> is freed, \<open>a\<close> holds
  the key and the value that \<open>p\<close> had, every other node holds its old pair, the in-order
  list of the map is the old one without \<open>p\<close>, the size is one less, and the map is ordered
  as a search tree.  After inserting \<open>5, 3, 8, 1, 4, 7, 9\<close> and erasing key 5, the
  traversal visits \<open>1, 3, 4, 7, 8, 9\<close> and the tree is ordered as a search tree.
\<close>

theorem erase_two_children:
  "(\<forall>dv (w :: ('k::linorder, 'v) world) m as a n l r ls.
      reachable dv w \<and> subtree_nodes (nodes w) (root_of (objs w m)) = Some as \<and> a \<in> set as
      \<and> lookup (nodes w) a = Some n \<and> left n = Some l \<and> right n = Some r
      \<and> subtree_nodes (nodes w) (Some l) = Some ls
      \<longrightarrow> (\<exists>p pn s' A B.
            as = A @ p # a # B \<and> p \<in> set ls \<and> lookup (nodes w) p = Some pn
          \<and> (\<forall>x \<in> set ls. \<forall>xn. lookup (nodes w) x = Some xn \<longrightarrow> key xn \<le> key pn)
          \<and> erase (enter w m) (Some a) = Some s'
          \<and> lookup (heap s') p = None
          \<and> pair_at (heap s') a = Some (key pn, val pn)
          \<and> (\<forall>b. b \<noteq> a \<longrightarrow> b \<noteq> p \<longrightarrow> pair_at (heap s') b = pair_at (nodes w) b)
          \<and> subtree_nodes (heap s') (root s') = Some (A @ a # B)
          \<and> size_field s' = size_of (objs w m) - 1
          \<and> bst_ordered s'))
   \<and> map_option (\<lambda>s. (traverse s, bst_ordered s))
       (Option.bind (inserts (0::int) empty_map [5, 3, 8, 1, 4, 7, 9 :: int])
          (\<lambda>s. erase_keys s [5]))
     = Some (Some [1, 3, 4, 7, 8, 9], True)"
proof (intro conjI allI impI)
  fix dv :: 'v and w :: "('k, 'v) world" and m as a n l r ls
  assume H: "reachable dv w \<and> subtree_nodes (nodes w) (root_of (objs w m)) = Some as \<and> a \<in> set as
      \<and> lookup (nodes w) a = Some n \<and> left n = Some l \<and> right n = Some r
      \<and> subtree_nodes (nodes w) (Some l) = Some ls"
  then have "reachable dv w" by simp
  then have "winv w" by (rule reachable_winv)
  then obtain T where T: "winvT w T" unfolding winv_def by blast
  note bt = winv_enter[OF T, of m]
  then have tr: "tree_at (nodes w) None (root_of (objs w m)) (T m)"
    by (simp add: bst_tree_def enter_def)
  from subtree_nodes_tree[OF tr] H have as: "as = nodes_of (T m)" by simp
  with H have a: "a \<in> set (nodes_of (T m))" by simp
  from H have n: "lookup (heap (enter w m)) a = Some n" by (simp add: enter_def)
  from H have c: "left n = Some l" "right n = Some r" by simp_all
  from erase_two_tree[OF bt a n c] obtain p pn s' t' A B lt where
    e: "nodes_of (T m) = A @ p # a # B"
      "tree_at (heap (enter w m)) (Some a) (Some l) lt" "p \<in> set (nodes_of lt)"
      "\<forall>x \<in> set (nodes_of lt). nkey (heap (enter w m)) x \<le> nkey (heap (enter w m)) p"
      "lookup (heap (enter w m)) p = Some pn"
      "erase (enter w m) (Some a) = Some s'"
      "bst_tree (heap s') (root s') t'" "nodes_of t' = A @ a # B"
      "lookup (heap s') p = None"
      "map_option (\<lambda>n. (key n, val n)) (lookup (heap s') a) = Some (key pn, val pn)"
      "\<forall>b. b \<noteq> a \<longrightarrow> b \<noteq> p \<longrightarrow>
          map_option (\<lambda>n. (key n, val n)) (lookup (heap s') b)
          = map_option (\<lambda>n. (key n, val n)) (lookup (heap (enter w m)) b)"
      "size_field s' = size_field (enter w m) - 1"
    by blast
  have hw: "heap (enter w m) = nodes w" by (simp add: enter_def)
  from subtree_nodes_tree[OF e(2)] H have ls: "ls = nodes_of lt" by (simp add: hw)
  have c1: "as = A @ p # a # B" using as e(1) by simp
  have c2: "p \<in> set ls" using ls e(3) by simp
  have c3: "lookup (nodes w) p = Some pn" using e(5) by (simp add: hw)
  have c4: "\<forall>x \<in> set ls. \<forall>xn. lookup (nodes w) x = Some xn \<longrightarrow> key xn \<le> key pn"
    using e(4) c3 ls by (auto simp: hw nkey_def)
  have c7: "pair_at (heap s') a = Some (key pn, val pn)" using e(10) by (simp add: pair_at_def)
  have c8: "\<forall>b. b \<noteq> a \<longrightarrow> b \<noteq> p \<longrightarrow> pair_at (heap s') b = pair_at (nodes w) b"
    using e(11) by (simp add: pair_at_def hw)
  from e(7) have "tree_at (heap s') None (root s') t'" by (simp add: bst_tree_def)
  from subtree_nodes_tree[OF this] e(8)
  have c9: "subtree_nodes (heap s') (root s') = Some (A @ a # B)" by simp
  have c10: "size_field s' = size_of (objs w m) - 1" using e(12) by (simp add: enter_def)
  have c11: "bst_ordered s'" using e(7) by (rule bst_tree_ordered)
  from c1 c2 c3 c4 e(6) e(9) c7 c8 c9 c10 c11
  show "\<exists>p pn s' A B.
            as = A @ p # a # B \<and> p \<in> set ls \<and> lookup (nodes w) p = Some pn
          \<and> (\<forall>x \<in> set ls. \<forall>xn. lookup (nodes w) x = Some xn \<longrightarrow> key xn \<le> key pn)
          \<and> erase (enter w m) (Some a) = Some s'
          \<and> lookup (heap s') p = None
          \<and> pair_at (heap s') a = Some (key pn, val pn)
          \<and> (\<forall>b. b \<noteq> a \<longrightarrow> b \<noteq> p \<longrightarrow> pair_at (heap s') b = pair_at (nodes w) b)
          \<and> subtree_nodes (heap s') (root s') = Some (A @ a # B)
          \<and> size_field s' = size_of (objs w m) - 1
          \<and> bst_ordered s'"
    by blast
next
  show "map_option (\<lambda>s. (traverse s, bst_ordered s))
       (Option.bind (inserts (0::int) empty_map [5, 3, 8, 1, 4, 7, 9 :: int])
          (\<lambda>s. erase_keys s [5]))
     = Some (Some [1, 3, 4, 7, 8, 9], True)"
    by code_simp
qed

theorem erase_two_children_witness:
  "reachable (0::int) world7
   \<and> subtree_nodes (nodes world7) (root_of (objs world7 0)) = Some [3, 1, 4, 0, 5, 2, 6]
   \<and> (0::nat) \<in> set [3, 1, 4, 0, 5, 2, 6]
   \<and> lookup (nodes world7) 0 = Some (the (heap7 ! 0))
   \<and> left (the (heap7 ! 0)) = Some 1 \<and> right (the (heap7 ! 0)) = Some 2
   \<and> subtree_nodes (nodes world7) (Some 1) = Some [3, 1, 4]
   \<and> (\<exists>p pn s' A B.
          [3, 1, 4, 0, 5, 2, 6] = A @ p # 0 # B \<and> p \<in> set [3, 1, 4]
        \<and> lookup (nodes world7) p = Some pn
        \<and> (\<forall>x \<in> set [3, 1, 4]. \<forall>xn. lookup (nodes world7) x = Some xn \<longrightarrow> key xn \<le> key pn)
        \<and> erase (enter world7 0) (Some 0) = Some s'
        \<and> lookup (heap s') p = None
        \<and> pair_at (heap s') 0 = Some (key pn, val pn)
        \<and> (\<forall>b. b \<noteq> 0 \<longrightarrow> b \<noteq> p \<longrightarrow> pair_at (heap s') b = pair_at (nodes world7) b)
        \<and> subtree_nodes (heap s') (root s') = Some (A @ 0 # B)
        \<and> size_field s' = size_of (objs world7 0) - 1
        \<and> bst_ordered s')"
proof -
  have "inserts (0::int) (enter (empty_world :: (int, int) world) 0) [5, 3, 8, 1, 4, 7, 9] = Some map7"
    using inserts_seven by (simp add: enter_empty_world)
  from reachable_inserts[OF reachable.r_init this]
  have h1: "reachable (0::int) world7" by (simp add: world7_def)
  have nw: "nodes world7 = heap7" "root_of (objs world7 0) = Some 0"
    by (simp_all add: world7_def leave_def map7_def)
  have h2: "subtree_nodes (nodes world7) (root_of (objs world7 0)) = Some [3, 1, 4, 0, 5, 2, 6]"
    unfolding nw by code_simp
  have h3: "(0::nat) \<in> set [3, 1, 4, 0, 5, 2, 6]" by simp
  have h4: "lookup (nodes world7) 0 = Some (the (heap7 ! 0))"
    unfolding nw by (simp add: lookup_def heap7_def)
  have h5: "left (the (heap7 ! 0)) = Some 1" "right (the (heap7 ! 0)) = Some 2"
    by (simp_all add: heap7_def)
  have h6: "subtree_nodes (nodes world7) (Some 1) = Some [3, 1, 4]"
    unfolding nw by code_simp
  from erase_two_children[THEN conjunct1, rule_format,
      of 0 world7 0 "[3, 1, 4, 0, 5, 2, 6]" 0 "the (heap7 ! 0)" 1 2 "[3, 1, 4]"]
    h1 h2 h3 h4 h5 h6
  have "\<exists>p pn s' A B.
          [3, 1, 4, 0, 5, 2, 6] = A @ p # 0 # B \<and> p \<in> set [3, 1, 4]
        \<and> lookup (nodes world7) p = Some pn
        \<and> (\<forall>x \<in> set [3, 1, 4]. \<forall>xn. lookup (nodes world7) x = Some xn \<longrightarrow> key xn \<le> key pn)
        \<and> erase (enter world7 0) (Some 0) = Some s'
        \<and> lookup (heap s') p = None
        \<and> pair_at (heap s') 0 = Some (key pn, val pn)
        \<and> (\<forall>b. b \<noteq> 0 \<longrightarrow> b \<noteq> p \<longrightarrow> pair_at (heap s') b = pair_at (nodes world7) b)
        \<and> subtree_nodes (heap s') (root s') = Some (A @ 0 # B)
        \<and> size_field s' = size_of (objs world7 0) - 1
        \<and> bst_ordered s'"
    by blast
  with h1 h2 h3 h4 h5 h6 show ?thesis by blast
qed

end
